theory Spec2Isabelle
  imports Main "HOL-Library.Word"
begin

unbundle bit_operations_syntax

section \<open>Python values, errors and messages\<close>

text \<open>
  The extractors exchange dictionaries whose values are integers, strings, lists or
  \<open>None\<close>. A dictionary keeps the insertion order of its keys, so a document is an
  association list. Strings are lists of characters with code points below 256.
\<close>

datatype pyval = PNone | PInt int | PStr string | PList "pyval list"

datatype py_error =
    IndexError
  | KeyError
  | ValueError
  | AttributeError
  | TypeError
  | GitLabError
  | ClientError string
  | CloudWatchError

type_synonym document = "(string \<times> pyval) list"

text \<open>A message of the shared channel: \<open>(label, record)\<close>, either of which may be \<open>None\<close>.\<close>

type_synonym message = "string option \<times> document option"

section \<open>Text helpers: digits, whitespace and \<open>int()\<close>\<close>

definition is_digit :: "char \<Rightarrow> bool" where
  "is_digit c \<longleftrightarrow> c \<in> set ''0123456789''"

definition digit_val :: "char \<Rightarrow> nat" where
  "digit_val c = of_char c - 48"

text \<open>The decimal value of a string of digits, most significant digit first.\<close>

definition dec_value :: "string \<Rightarrow> nat" where
  "dec_value ds = foldl (\<lambda>a c. 10 * a + digit_val c) 0 ds"

text \<open>
  The characters below 256 that Python's \<open>str.isspace\<close> accepts; \<open>str.strip\<close> drops
  them at both ends, and \<open>\s\<close> matches them.
\<close>

definition py_isspace :: "char \<Rightarrow> bool" where
  "py_isspace c \<longleftrightarrow>
     (of_char c :: nat) \<in> {9, 10, 11, 12, 13, 28, 29, 30, 31, 32, 133, 160}"


text \<open>
  The whitespace that \<open>int()\<close> drops around a number is narrower: the four separator
  characters 28 to 31 are space for \<open>str.isspace\<close> but not for \<open>int()\<close>.
\<close>

definition int_isspace :: "char \<Rightarrow> bool" where
  "int_isspace c \<longleftrightarrow> (of_char c :: nat) \<in> {9, 10, 11, 12, 13, 32, 133, 160}"

definition int_strip :: "string \<Rightarrow> string" where
  "int_strip s = rev (dropWhile int_isspace (rev (dropWhile int_isspace s)))"

text \<open>
  The digit part of an integer literal as \<open>int()\<close> reads it: digits, with single
  underscores allowed between two digits. \<open>None\<close> stands for the ValueError.
\<close>

fun digits_us :: "nat \<Rightarrow> string \<Rightarrow> nat option" where
  "digits_us acc [] = None"
| "digits_us acc (c # cs) =
     (if is_digit c then
        (let a = 10 * acc + digit_val c in
         case cs of
           [] \<Rightarrow> Some a
         | d # ds \<Rightarrow> if d = CHR ''_'' then digits_us a ds else digits_us a cs)
      else None)"

text \<open>
  Python's \<open>int(s)\<close> for a string: surrounding whitespace is dropped, an optional sign
  is read, then the digits. The interpreter's optional limit on the number of digits is
  not part of the model.
\<close>

definition py_int :: "string \<Rightarrow> py_error + int" where
  "py_int s =
     (case int_strip s of
        [] \<Rightarrow> Inl ValueError
      | c # cs \<Rightarrow>
          if c = CHR ''-'' then
            (case digits_us 0 cs of None \<Rightarrow> Inl ValueError | Some n \<Rightarrow> Inr (- int n))
          else if c = CHR ''+'' then
            (case digits_us 0 cs of None \<Rightarrow> Inl ValueError | Some n \<Rightarrow> Inr (int n))
          else
            (case digits_us 0 (c # cs) of None \<Rightarrow> Inl ValueError | Some n \<Rightarrow> Inr (int n)))"

section \<open>Issue-tracker rows: \<open>Story.transform_input\<close> and \<open>Jira.__extract\<close>\<close>

definition Story_LABEL :: string where
  "Story_LABEL = ''story''"

text \<open>
  \<open>SPRINT_RE.search(sprint)\<close> for the pattern \<open>\d+\<close>: the first maximal run of digits
  of the text, \<open>None\<close> when the text has no digit.
\<close>

definition SPRINT_RE_search :: "string \<Rightarrow> string option" where
  "SPRINT_RE_search s =
     (let r = dropWhile (\<lambda>c. \<not> is_digit c) s
      in if r = [] then None else Some (takeWhile is_digit r))"

text \<open>
  The list comprehension \<open>[int(SPRINT_RE.search(sprint).group()) for sprint in sprints if
  sprint]\<close>: empty columns are skipped, and \<open>.group()\<close> on a failed search raises
  AttributeError.
\<close>

fun parse_sprints :: "string list \<Rightarrow> py_error + int list" where
  "parse_sprints [] = Inr []"
| "parse_sprints (s # ss) =
     (if s = [] then parse_sprints ss
      else
        (case SPRINT_RE_search s of
           None \<Rightarrow> Inl AttributeError
         | Some ds \<Rightarrow>
             (case py_int ds of
                Inl e \<Rightarrow> Inl e
              | Inr n \<Rightarrow>
                  (case parse_sprints ss of
                     Inl e \<Rightarrow> Inl e
                   | Inr ns \<Rightarrow> Inr (n # ns)))))"

text \<open>
  \<open>Story.transform_input\<close>: the columns after the first are collected, then the
  dictionary is built, \<open>"id"\<close> before \<open>"sprints"\<close>. A row without columns raises
  IndexError at \<open>data[0]\<close>.
\<close>

definition Story_transform_input :: "string list \<Rightarrow> py_error + document" where
  "Story_transform_input data =
     (let sprints = drop 1 data in
      case data of
        [] \<Rightarrow> Inl IndexError
      | d0 # _ \<Rightarrow>
          (case py_int d0 of
             Inl e \<Rightarrow> Inl e
           | Inr n \<Rightarrow>
               (case parse_sprints sprints of
                  Inl e \<Rightarrow> Inl e
                | Inr ns \<Rightarrow> Inr [(''id'', PInt n), (''sprints'', PList (map PInt ns))])))"

text \<open>
  The loop of \<open>Jira.__extract\<close> over the rows after the header: each row is transformed
  and queued; an exception of the transformation leaves the loop with what was queued
  so far.
\<close>

fun put_stories :: "string list list \<Rightarrow> message list \<Rightarrow> py_error option \<times> message list" where
  "put_stories [] q = (None, q)"
| "put_stories (row # rows) q =
     (case Story_transform_input row of
        Inl e \<Rightarrow> (Some e, q)
      | Inr doc \<Rightarrow> put_stories rows (q @ [(Some Story_LABEL, Some doc)]))"

definition Jira_extract :: "string list list \<Rightarrow> message list \<Rightarrow> py_error option \<times> message list" where
  "Jira_extract rows q = put_stories (drop 1 rows) q"

text \<open>The stories of rows that all transform: what a run without exception queues.\<close>

definition story_message :: "string list \<Rightarrow> message" where
  "story_message row =
     (Some Story_LABEL,
      (case Story_transform_input row of Inl e \<Rightarrow> None | Inr doc \<Rightarrow> Some doc))"

text \<open>The integer embedded in a column that has a digit.\<close>

definition sprint_number :: "string \<Rightarrow> int" where
  "sprint_number s = int (dec_value (takeWhile is_digit (dropWhile (\<lambda>c. \<not> is_digit c) s)))"

section \<open>Identity hashing: SHAKE128 and its hexadecimal digests\<close>

text \<open>
  \<open>User.hash_id\<close> and \<open>LogGroup.hash_name\<close> call \<open>hashlib.shake_128\<close> on the UTF-8
  bytes of a string and keep the first 4 and 8 bytes of the output as hexadecimal text.
  SHAKE128 is the Keccak sponge with rate 168 bytes and domain suffix \<open>1111\<close>; the
  state is 25 lanes of 64 bits, lane \<open>x + 5 * y\<close> at position \<open>(x, y)\<close>. Bytes are
  natural numbers below 256.
\<close>

type_synonym lane = "64 word"

text \<open>Rotation of a lane to the left; bits pushed past bit 63 are cut off by the type.\<close>

definition rotl64 :: "nat \<Rightarrow> lane \<Rightarrow> lane" where
  "rotl64 n w = push_bit n w OR drop_bit (64 - n) w"

text \<open>The 24 round constants.\<close>

definition keccak_RC :: "lane list" where
  "keccak_RC =
     [0x0000000000000001, 0x0000000000008082, 0x800000000000808A, 0x8000000080008000,
      0x000000000000808B, 0x0000000080000001, 0x8000000080008081, 0x8000000000008009,
      0x000000000000008A, 0x0000000000000088, 0x0000000080008009, 0x000000008000000A,
      0x000000008000808B, 0x800000000000008B, 0x8000000000008089, 0x8000000000008003,
      0x8000000000008002, 0x8000000000000080, 0x000000000000800A, 0x800000008000000A,
      0x8000000080008081, 0x8000000000008080, 0x0000000080000001, 0x8000000080008008]"

text \<open>
  The steps rho and pi in one table: the lane at index \<open>i\<close> of the result is the lane at
  the listed source index, rotated by the listed offset.
\<close>

definition rho_pi_table :: "(nat \<times> nat) list" where
  "rho_pi_table =
     [(0, 0), (6, 44), (12, 43), (18, 21), (24, 14), (3, 28), (9, 20), (10, 3), (16, 45),
      (22, 61), (1, 1), (7, 6), (13, 25), (19, 8), (20, 18), (4, 27), (5, 36), (11, 10),
      (17, 15), (23, 56), (2, 62), (8, 55), (14, 39), (15, 41), (21, 2)]"

definition lane_indices :: "nat list" where
  "lane_indices = [0, 1, 2, 3, 4, 5, 6, 7, 8, 9, 10, 11, 12, 13, 14, 15, 16, 17, 18, 19, 20,
     21, 22, 23, 24]"

text \<open>Theta: column parities, their combination, and its application to every lane.\<close>

definition theta_C :: "lane list \<Rightarrow> lane list" where
  "theta_C a = map (\<lambda>x. a ! x XOR a ! (x + 5) XOR a ! (x + 10) XOR a ! (x + 15) XOR a ! (x + 20))
     [0, 1, 2, 3, 4]"

definition theta_D :: "lane list \<Rightarrow> lane list" where
  "theta_D c = map (\<lambda>x. c ! ((x + 4) mod 5) XOR rotl64 1 (c ! ((x + 1) mod 5))) [0, 1, 2, 3, 4]"

definition theta_apply :: "lane list \<Rightarrow> lane list \<Rightarrow> lane list" where
  "theta_apply a d = map (\<lambda>i. a ! i XOR d ! (i mod 5)) lane_indices"

definition rho_pi :: "lane list \<Rightarrow> lane list" where
  "rho_pi a = map (\<lambda>(s, r). rotl64 r (a ! s)) rho_pi_table"

text \<open>Chi combines each lane with the next two lanes of its row.\<close>

definition chi :: "lane list \<Rightarrow> lane list" where
  "chi b = map (\<lambda>i. b ! i XOR (NOT (b ! (i - i mod 5 + (i + 1) mod 5)) AND
                                  b ! (i - i mod 5 + (i + 2) mod 5))) lane_indices"

text \<open>Iota adds the round constant to lane 0.\<close>

definition iota :: "lane \<Rightarrow> lane list \<Rightarrow> lane list" where
  "iota rc a = (case a of [] \<Rightarrow> [] | a0 # rest \<Rightarrow> (a0 XOR rc) # rest)"

definition keccak_round :: "lane list \<Rightarrow> lane \<Rightarrow> lane list" where
  "keccak_round a rc = iota rc (chi (rho_pi (theta_apply a (theta_D (theta_C a)))))"

definition keccak_f :: "lane list \<Rightarrow> lane list" where
  "keccak_f a = foldl keccak_round a keccak_RC"

text \<open>
  Padding to a multiple of the rate: the suffix byte \<open>0x1F\<close>, zeros, and a final
  \<open>0x80\<close>; the two coincide in one byte \<open>0x9F\<close> when a single byte is missing.
\<close>

definition shake_pad :: "nat list \<Rightarrow> nat list" where
  "shake_pad m =
     (let k = 168 - length m mod 168
      in if k = 1 then m @ [0x9F] else m @ [0x1F] @ replicate (k - 2) 0 @ [0x80])"

text \<open>Eight bytes make a lane, least significant byte first.\<close>

definition lane_of_bytes :: "nat list \<Rightarrow> lane" where
  "lane_of_bytes bs = word_of_nat (foldr (\<lambda>b n. b + 256 * n) bs 0)"

fun block_lanes :: "nat list \<Rightarrow> lane list" where
  "block_lanes (b0 # b1 # b2 # b3 # b4 # b5 # b6 # b7 # rest) =
     lane_of_bytes [b0, b1, b2, b3, b4, b5, b6, b7] # block_lanes rest"
| "block_lanes rest = []"

fun xor_lanes :: "lane list \<Rightarrow> lane list \<Rightarrow> lane list" where
  "xor_lanes (s # st) (l # ls) = (s XOR l) # xor_lanes st ls"
| "xor_lanes st ls = st"

text \<open>Absorbing: each block of 168 bytes is added to the first 21 lanes, then permuted.\<close>

function absorb :: "lane list \<Rightarrow> nat list \<Rightarrow> lane list" where
  "absorb st bs =
     (if bs = [] then st
      else absorb (keccak_f (xor_lanes st (block_lanes (take 168 bs)))) (drop 168 bs))"
  by pat_completeness auto
termination
  by (relation "measure (\<lambda>(st, bs). length bs)") auto

declare absorb.simps [simp del]

text \<open>Squeezing: the bytes of the first 21 lanes; at most one block of output is used here.\<close>

definition lane_bytes :: "lane \<Rightarrow> nat list" where
  "lane_bytes w = map (\<lambda>j. unat (drop_bit (8 * j) w AND 0xFF)) [0, 1, 2, 3, 4, 5, 6, 7]"

definition shake_128 :: "nat list \<Rightarrow> nat \<Rightarrow> nat list" where
  "shake_128 m n = take n (concat (map lane_bytes (take 21 (absorb (replicate 25 0) (shake_pad m)))))"

text \<open>\<open>hexdigest\<close>: two lowercase hexadecimal digits per byte.\<close>

definition hex_byte :: "nat \<Rightarrow> string" where
  "hex_byte b = [''0123456789abcdef'' ! (b div 16), ''0123456789abcdef'' ! (b mod 16)]"

definition hexdigest :: "nat list \<Rightarrow> string" where
  "hexdigest bs = concat (map hex_byte bs)"

text \<open>\<open>str.encode("UTF-8")\<close> for code points below 256: one byte below 128, two above.\<close>

definition utf8_encode :: "string \<Rightarrow> nat list" where
  "utf8_encode s = concat (map (\<lambda>c. let n = of_char c in
      if n < 128 then [n] else [192 + n div 64, 128 + n mod 64]) s)"

text \<open>\<open>User.hash_id\<close> keeps 4 bytes, \<open>LogGroup.hash_name\<close> keeps 8.\<close>

definition User_hash_id :: "string \<Rightarrow> string" where
  "User_hash_id ident = hexdigest (shake_128 (utf8_encode ident) 4)"


section \<open>The document store and the ingestion writer\<close>

text \<open>The keys of \<open>TYPE_MAP\<close>: one table per record label.\<close>

definition TYPE_MAP_labels :: "string list" where
  "TYPE_MAP_labels =
     [''account'', ''loggroup'', ''errorlog'', ''user'', ''commit'', ''merge'',
      ''project'', ''group'', ''story'']"

text \<open>
  A \<open>Database\<close> object: the rows of each table it holds a handle for, and whether the
  TinyDB handle has been closed. Closing the handle closes the storage, and the caching
  middleware writes its buffer out when it is closed.
\<close>

record database =
  tables :: "string \<rightharpoonup> document list"
  closed :: bool

text \<open>
  \<open>Database.__init__\<close> opens one table per key of \<open>TYPE_MAP\<close>; \<open>stored\<close> is what the
  file holds for each of them.
\<close>

definition Database_init :: "(string \<Rightarrow> document list) \<Rightarrow> database" where
  "Database_init stored =
     \<lparr>tables = (\<lambda>label. if label \<in> set TYPE_MAP_labels then Some (stored label) else None),
      closed = False\<rparr>"

text \<open>
  \<open>Database.insert\<close>: \<open>self.tables[label]\<close> raises KeyError for a label without a
  table, and the table's \<open>insert\<close> refuses a document that is not a mapping with a
  ValueError. The identifier it returns is not used by the writer.
\<close>

definition Database_insert :: "database \<Rightarrow> string \<Rightarrow> document option \<Rightarrow> py_error + database" where
  "Database_insert db label document =
     (case tables db label of
        None \<Rightarrow> Inl KeyError
      | Some rows \<Rightarrow>
          (case document of
             None \<Rightarrow> Inl ValueError
           | Some doc \<Rightarrow> Inr (db\<lparr>tables := (tables db)(label \<mapsto> rows @ [doc])\<rparr>)))"

text \<open>Leaving the \<open>with self.db:\<close> block, by return or by exception, closes the handle.\<close>

definition Database_close :: "database \<Rightarrow> database" where
  "Database_close db = db\<lparr>closed := True\<rparr>"

text \<open>
  \<open>Database.__listen\<close> over the messages the channel will deliver, in the order they
  are dequeued. \<open>queue.get()\<close> blocks when there is nothing left: the writer is waiting.
\<close>

datatype listen_result = Returned database | Raised py_error database | Waiting database

fun listen :: "database \<Rightarrow> message list \<Rightarrow> listen_result" where
  "listen db [] = Waiting db"
| "listen db ((label, document) # queue) =
     (case label of
        Some l \<Rightarrow>
          (case Database_insert db l document of
             Inl e \<Rightarrow> Raised e (Database_close db)
           | Inr db' \<Rightarrow> listen db' queue)
      | None \<Rightarrow> Returned (Database_close db))"

text \<open>The records of the messages with a given label, in message order.\<close>

definition documents_for :: "string \<Rightarrow> message list \<Rightarrow> document list" where
  "documents_for label ms =
     concat (map (\<lambda>(l, d). case d of None \<Rightarrow> [] | Some doc \<Rightarrow> if l = Some label then [doc] else []) ms)"

text \<open>The store after these records have been appended to their tables.\<close>

definition with_inserted :: "database \<Rightarrow> message list \<Rightarrow> database" where
  "with_inserted db ms =
     db\<lparr>tables := (\<lambda>label. map_option (\<lambda>rows. rows @ documents_for label ms) (tables db label))\<rparr>"

text \<open>A message the store accepts: a record, with the label of an open table.\<close>

definition storable :: "database \<Rightarrow> message \<Rightarrow> bool" where
  "storable db m \<longleftrightarrow>
     (case m of (Some l, Some doc) \<Rightarrow> l \<in> dom (tables db) | _ \<Rightarrow> False)"

text \<open>Two documents for the examples.\<close>

definition doc_a :: document where "doc_a = [(''id'', PStr ''0a1b2c3d'')]"
definition doc_b :: document where "doc_b = [(''id'', PInt 7), (''sprints'', PList [PInt 3])]"

section \<open>Merge requests: \<open>Merge.transform_input\<close> and the story id\<close>

text \<open>
  The pattern of \<open>Merge.transform_input\<close> is
  \<open>([ACRONYM]{5,}[\s_-]*)(\d+)\<close>, searched with \<open>re.I\<close>: the acronym stands inside a
  character class, so the first part is a run of at least five characters, each one of
  the acronym's characters in either case. The model reads the acronym as a plain set of
  characters, which is what the class means for an acronym of letters and digits.
\<close>

text \<open>ASCII lower case, the case folding of \<open>re.I\<close> on these characters.\<close>

definition ascii_lower :: "char \<Rightarrow> char" where
  "ascii_lower c =
     (let n = (of_char c :: nat) in if 65 \<le> n \<and> n \<le> 90 then char_of (n + 32) else c)"

text \<open>The ASCII letters and digits.\<close>

definition is_alnum :: "char \<Rightarrow> bool" where
  "is_alnum c \<longleftrightarrow>
     (let n = (of_char c :: nat) in
      (48 \<le> n \<and> n \<le> 57) \<or> (65 \<le> n \<and> n \<le> 90) \<or> (97 \<le> n \<and> n \<le> 122))"

text \<open>Membership in the class \<open>[ACRONYM]\<close> under \<open>re.I\<close>.\<close>

definition in_acronym :: "string \<Rightarrow> char \<Rightarrow> bool" where
  "in_acronym acr c \<longleftrightarrow> ascii_lower c \<in> set (map ascii_lower acr)"

text \<open>Membership in the class \<open>[\s_-]\<close>.\<close>

definition is_sep :: "char \<Rightarrow> bool" where
  "is_sep c \<longleftrightarrow> py_isspace c \<or> c = CHR ''_'' \<or> c = CHR ''-''"

text \<open>
  Matching at a fixed start follows the backtracking of the regular expression engine:
  the two repetitions are greedy, so the longest run of class characters is tried first,
  then the longest run of separators, and a shorter run is tried only when no digit
  follows. \<open>\d+\<close> comes last and takes every digit it finds. \<open>try_seps m s\<close> tries
  \<open>m\<close> separators, then \<open>m - 1\<close>, down to none, and returns group 2 of the first
  success.
\<close>

fun try_seps :: "nat \<Rightarrow> string \<Rightarrow> string option" where
  "try_seps 0 s =
     (let ds = takeWhile is_digit s in if ds \<noteq> [] then Some ds else None)"
| "try_seps (Suc k) s =
     (let ds = takeWhile is_digit (drop (Suc k) s) in
      if ds \<noteq> [] then Some ds else try_seps k s)"

text \<open>\<open>try_letters n s\<close> tries \<open>n\<close> class characters, then \<open>n - 1\<close>, down to five.\<close>

fun try_letters :: "nat \<Rightarrow> string \<Rightarrow> string option" where
  "try_letters 0 s = None"
| "try_letters (Suc n) s =
     (if Suc n < 5 then None
      else
        (case try_seps (length (takeWhile is_sep (drop (Suc n) s))) (drop (Suc n) s) of
           Some ds \<Rightarrow> Some ds
         | None \<Rightarrow> try_letters n s))"

text \<open>A match that starts at the first character of the text.\<close>

definition match_here :: "string \<Rightarrow> string \<Rightarrow> string option" where
  "match_here acr s = try_letters (length (takeWhile (in_acronym acr) s)) s"

text \<open>
  \<open>re.search\<close>: the match at the leftmost start that has one. The result is group 2,
  the digits; \<open>None\<close> when the pattern matches nowhere.
\<close>

fun story_search :: "string \<Rightarrow> string \<Rightarrow> string option" where
  "story_search acr [] = match_here acr []"
| "story_search acr (c # cs) =
     (case match_here acr (c # cs) of
        Some ds \<Rightarrow> Some ds
      | None \<Rightarrow> story_search acr cs)"


text \<open>
  What it means for a text to begin with an issue key with digits \<open>ds\<close>, said without
  the search: at least five class characters, any separators, the digits, and no digit
  after them.
\<close>

definition key_at :: "string \<Rightarrow> string \<Rightarrow> string \<Rightarrow> bool" where
  "key_at acr t ds \<longleftrightarrow>
     (\<exists>letters seps rest.
        t = letters @ seps @ ds @ rest \<and> 5 \<le> length letters \<and>
        (\<forall>c \<in> set letters. in_acronym acr c) \<and> (\<forall>c \<in> set seps. is_sep c) \<and>
        ds \<noteq> [] \<and> (\<forall>c \<in> set ds. is_digit c) \<and> (rest = [] \<or> \<not> is_digit (hd rest)))"

text \<open>
  The fields of a merge request that \<open>Merge.transform_input\<close> reads. The description of
  a merge request may be \<open>null\<close>.
\<close>

record merge_request =
  mr_id :: int
  mr_iid :: int
  mr_project_id :: int
  mr_author_username :: string
  mr_merged_at :: string
  mr_title :: string
  mr_description :: "string option"

text \<open>
  \<open>Merge.transform_input\<close>. Concatenating the title with a description that is
  \<open>None\<close> raises TypeError. \<open>int(story_result.group(2))\<close> converts the digits found.
  \<open>iso_timestamp\<close> stands for \<open>int(datetime.fromisoformat(_).timestamp())\<close>, which may
  raise ValueError. The last entry is \<open>story_id if story_id and story_id < 1000 else
  None\<close>: a story id that is \<open>None\<close> or zero is false.
\<close>

definition Merge_transform_input ::
  "(string \<Rightarrow> py_error + int) \<Rightarrow> merge_request \<Rightarrow> string \<Rightarrow> py_error + document" where
  "Merge_transform_input iso_timestamp data project_acronym =
     (case mr_description data of
        None \<Rightarrow> Inl TypeError
      | Some description \<Rightarrow>
          (case
             (case story_search project_acronym (mr_title data @ description) of
                None \<Rightarrow> Inr None
              | Some ds \<Rightarrow> (case py_int ds of Inl e \<Rightarrow> Inl e | Inr v \<Rightarrow> Inr (Some v)))
           of
             Inl e \<Rightarrow> Inl e
           | Inr story_id \<Rightarrow>
               (case iso_timestamp (mr_merged_at data) of
                  Inl e \<Rightarrow> Inl e
                | Inr ts \<Rightarrow>
                    Inr [(''id'', PInt (mr_id data)),
                         (''internal_id'', PInt (mr_iid data)),
                         (''project_id'', PInt (mr_project_id data)),
                         (''author_id'', PStr (User_hash_id (mr_author_username data))),
                         (''timestamp'', PInt ts),
                         (''story_id'',
                            (case story_id of
                               None \<Rightarrow> PNone
                             | Some v \<Rightarrow> if v \<noteq> 0 \<and> v < 1000 then PInt v else PNone))])))"

text \<open>Two merge requests for the examples, and a clock that reads every date as 0.\<close>

definition mr_proj :: merge_request where
  "mr_proj = \<lparr>mr_id = 501, mr_iid = 7, mr_project_id = 12, mr_author_username = ''alice'',
     mr_merged_at = ''2023-02-01T10:00:00.000Z'', mr_title = ''PROJ-42 fix bug'',
     mr_description = Some []\<rparr>"

definition mr_proje :: merge_request where
  "mr_proje = \<lparr>mr_id = 502, mr_iid = 8, mr_project_id = 12, mr_author_username = ''alice'',
     mr_merged_at = ''2023-02-01T10:00:00.000Z'', mr_title = ''PROJE-42 fix bug'',
     mr_description = Some []\<rparr>"

definition epoch_zero :: "string \<Rightarrow> py_error + int" where
  "epoch_zero s = Inr 0"

section \<open>The log-aggregation extractor: \<open>CloudWatch.__query_logs\<close>\<close>

text \<open>
  Python dictionaries keep the order in which keys were first inserted. A dictionary is an
  association list with one entry per key: assigning to a key that is present replaces its
  value in place, assigning to a new key appends an entry, and \<open>pop\<close> removes the key.
\<close>

fun dict_set :: "('k \<times> 'v) list \<Rightarrow> 'k \<Rightarrow> 'v \<Rightarrow> ('k \<times> 'v) list" where
  "dict_set [] k v = [(k, v)]"
| "dict_set ((k', v') # d) k v = (if k' = k then (k, v) # d else (k', v') # dict_set d k v)"

definition dict_pop :: "('k \<times> 'v) list \<Rightarrow> 'k \<Rightarrow> ('k \<times> 'v) list" where
  "dict_pop d k = filter (\<lambda>(k', v). k' \<noteq> k) d"

definition dict_keys :: "('k \<times> 'v) list \<Rightarrow> 'k set" where
  "dict_keys d = fst ` set d"

definition QUERY_LIMIT :: nat where
  "QUERY_LIMIT = 10000"

text \<open>
  What \<open>__start_error_query\<close> returns: a query id, or one of the two status codes. What
  \<open>__get_query_results\<close> returns: the result rows, or one of its two status codes.
\<close>

datatype start_outcome = QueryId string | LIMIT_REACHED | NOT_FOUND

datatype 'r poll_outcome = Results "'r list" | IN_PROGRESS | THROTTLED

text \<open>
  The surroundings of one extractor process. \<open>'w\<close> is everything outside the loop that
  a call can change: the log service, the caches of the version-control extractor, the
  shared channel. The two client calls answer with an error code (a \<open>ClientError\<close>) or
  with a value: the query id, or the status of the query with its rows.
  \<open>handle_results\<close> is \<open>__handle_query_results\<close>, \<open>result_timestamp\<close> is
  \<open>ErrorLog.query_result_transform_timestamp\<close>, and the two timestamps are those of the
  configuration.
\<close>

record ('w, 'r) cloudwatch =
  client_start_query :: "'w \<Rightarrow> string \<Rightarrow> int \<Rightarrow> int \<Rightarrow> (string + string) \<times> 'w"
  client_get_query_results :: "'w \<Rightarrow> string \<Rightarrow> (string + string \<times> 'r list) \<times> 'w"
  handle_results :: "'w \<Rightarrow> 'r list \<Rightarrow> string \<Rightarrow> py_error + 'w"
  result_timestamp :: "'r \<Rightarrow> py_error + int"
  start_timestamp :: int
  limit_timestamp :: int

text \<open>
  \<open>__start_error_query\<close>: the two error codes it knows become status codes, any other
  \<open>ClientError\<close> is raised again.
\<close>

definition start_error_query ::
  "('w, 'r) cloudwatch \<Rightarrow> 'w \<Rightarrow> string \<Rightarrow> int \<Rightarrow> int \<Rightarrow> (py_error + start_outcome) \<times> 'w" where
  "start_error_query c w log_group start limit =
     (case client_start_query c w log_group start limit of
        (Inr query_id, w') \<Rightarrow> (Inr (QueryId query_id), w')
      | (Inl code, w') \<Rightarrow>
          if code = ''LimitExceededException'' then (Inr LIMIT_REACHED, w')
          else if code = ''ResourceNotFoundException'' then (Inr NOT_FOUND, w')
          else (Inl (ClientError code), w'))"

text \<open>
  \<open>__get_query_results\<close>: throttling is a status code, any other \<open>ClientError\<close> is
  raised again; a status other than Complete, Scheduled and Running raises
  \<open>CloudWatchError\<close>.
\<close>

definition get_query_results ::
  "('w, 'r) cloudwatch \<Rightarrow> 'w \<Rightarrow> string \<Rightarrow> (py_error + 'r poll_outcome) \<times> 'w" where
  "get_query_results c w query_id =
     (case client_get_query_results c w query_id of
        (Inl code, w') \<Rightarrow>
          if code = ''ThrottlingException'' then (Inr THROTTLED, w')
          else (Inl (ClientError code), w')
      | (Inr (status, results), w') \<Rightarrow>
          if status = ''Complete'' then (Inr (Results results), w')
          else if status = ''Scheduled'' \<or> status = ''Running'' then (Inr IN_PROGRESS, w')
          else (Inl CloudWatchError, w'))"

text \<open>
  The state of the loop: the pending log groups with their time windows
  (\<open>log_groups\<close>), the queries in flight (\<open>queries\<close>), and the surroundings.
\<close>

record 'w query_state =
  log_groups :: "(string \<times> int \<times> int) list"
  queries :: "(string \<times> string) list"
  world :: "'w"

text \<open>
  The inner \<open>while log_groups:\<close> loop. It takes the first pending log group and starts
  a query for its window. \<open>LIMIT_REACHED\<close> leaves the loop with the log group still
  pending; \<open>NOT_FOUND\<close> only removes the log group; a query id is recorded under the
  log group, which is then removed from the pending ones.
\<close>

function submit_pending :: "('w, 'r) cloudwatch \<Rightarrow> 'w query_state \<Rightarrow> py_error + 'w query_state" where
  "submit_pending c s =
     (case log_groups s of
        [] \<Rightarrow> Inr s
      | (log_group, time_restriction) # rest \<Rightarrow>
          (case start_error_query c (world s) log_group (fst time_restriction)
                  (snd time_restriction) of
             (Inl e, w) \<Rightarrow> Inl e
           | (Inr LIMIT_REACHED, w) \<Rightarrow> Inr (s\<lparr>world := w\<rparr>)
           | (Inr NOT_FOUND, w) \<Rightarrow>
               submit_pending c
                 (s\<lparr>log_groups := dict_pop (log_groups s) log_group, world := w\<rparr>)
           | (Inr (QueryId query), w) \<Rightarrow>
               submit_pending c
                 (s\<lparr>queries := dict_set (queries s) log_group query,
                    log_groups := dict_pop (log_groups s) log_group, world := w\<rparr>)))"
  by pat_completeness auto
termination
proof (relation "measure (\<lambda>(c, s). length (log_groups s))")
  show "wf (measure (\<lambda>(c, s). length (log_groups s)))" by simp
next
  fix c :: "('w, 'r) cloudwatch" and s :: "'w query_state" and a rest log_group time_restriction
    and x w and y :: start_outcome
  assume "log_groups s = a # rest" "(log_group, time_restriction) = a"
  then have "length (dict_pop (log_groups s) log_group) < length (log_groups s)"
    by (auto simp: dict_pop_def intro: le_imp_less_Suc)
  then show "((c, s\<lparr>log_groups := dict_pop (log_groups s) log_group, world := w\<rparr>), c, s)
      \<in> measure (\<lambda>(c, s). length (log_groups s))"
    by simp
next
  fix c :: "('w, 'r) cloudwatch" and s :: "'w query_state" and a rest log_group time_restriction
    and x w and y :: start_outcome and query
  assume "log_groups s = a # rest" "(log_group, time_restriction) = a"
  then have "length (dict_pop (log_groups s) log_group) < length (log_groups s)"
    by (auto simp: dict_pop_def intro: le_imp_less_Suc)
  then show "((c, s\<lparr>queries := dict_set (queries s) log_group query,
                    log_groups := dict_pop (log_groups s) log_group, world := w\<rparr>), c, s)
      \<in> measure (\<lambda>(c, s). length (log_groups s))"
    by simp
qed

declare submit_pending.simps [simp del]

text \<open>
  The \<open>for i in range(len(queries)-1, -1, -1)\<close> loop, \<open>n\<close> indices still to visit, the
  next one \<open>n - 1\<close>. The entry at that index of the current dictionary is polled. A
  query still in progress or throttled stays in flight. A completed one has its rows
  handled; if there are at least \<open>QUERY_LIMIT\<close> rows the log group becomes pending again
  with the timestamp of the last row as its start and the configured limit as its end;
  then the query is removed.
\<close>

fun poll_queries ::
  "('w, 'r) cloudwatch \<Rightarrow> nat \<Rightarrow> 'w query_state \<Rightarrow> py_error + 'w query_state" where
  "poll_queries c 0 s = Inr s"
| "poll_queries c (Suc i) s =
     (if i < length (queries s) then
        (case queries s ! i of
           (log_group, query) \<Rightarrow>
             (case get_query_results c (world s) query of
                (Inl e, w) \<Rightarrow> Inl e
              | (Inr IN_PROGRESS, w) \<Rightarrow> poll_queries c i (s\<lparr>world := w\<rparr>)
              | (Inr THROTTLED, w) \<Rightarrow> poll_queries c i (s\<lparr>world := w\<rparr>)
              | (Inr (Results results), w) \<Rightarrow>
                  (case handle_results c w results log_group of
                     Inl e \<Rightarrow> Inl e
                   | Inr w' \<Rightarrow>
                       (if QUERY_LIMIT \<le> length results then
                          (case result_timestamp c (last results) of
                             Inl e \<Rightarrow> Inl e
                           | Inr last_timestamp \<Rightarrow>
                               poll_queries c i
                                 (s\<lparr>log_groups := dict_set (log_groups s) log_group
                                      (last_timestamp, limit_timestamp c),
                                    queries := dict_pop (queries s) log_group,
                                    world := w'\<rparr>))
                        else
                          poll_queries c i
                            (s\<lparr>queries := dict_pop (queries s) log_group, world := w'\<rparr>)))))
      else Inl IndexError)"

text \<open>One pass of the outer \<open>while True:\<close> loop, up to its exit test.\<close>

definition cycle :: "('w, 'r) cloudwatch \<Rightarrow> 'w query_state \<Rightarrow> py_error + 'w query_state" where
  "cycle c s =
     (case submit_pending c s of
        Inl e \<Rightarrow> Inl e
      | Inr s' \<Rightarrow> poll_queries c (length (queries s')) s')"

text \<open>Nothing pending and nothing in flight: \<open>not log_groups and not queries\<close>.\<close>

definition idle :: "'w query_state \<Rightarrow> bool" where
  "idle s \<longleftrightarrow> log_groups s = [] \<and> queries s = []"

text \<open>
  The outer loop. It leaves by \<open>break\<close> when, after a pass, nothing is pending and
  nothing is in flight, or by an exception of a pass; otherwise it goes round again, and
  nothing bounds the number of passes: \<open>None\<close> is the loop that never ends.
\<close>

partial_function (option) query_loop ::
  "('w, 'r) cloudwatch \<Rightarrow> 'w query_state \<Rightarrow> (py_error + 'w query_state) option" where
  "query_loop c s =
     (case cycle c s of
        Inl e \<Rightarrow> Some (Inl e)
      | Inr s' \<Rightarrow>
          if idle s' then Some (Inr s') else query_loop c s')"

text \<open>
  \<open>__query_logs\<close>: every log group starts with the configured window, a name that
  occurs twice in the list counts once, and no query is in flight.
\<close>

definition initial_state :: "('w, 'r) cloudwatch \<Rightarrow> string list \<Rightarrow> 'w \<Rightarrow> 'w query_state" where
  "initial_state c groups w =
     \<lparr>log_groups =
        foldl (\<lambda>d log_group. dict_set d log_group (start_timestamp c, limit_timestamp c)) [] groups,
      queries = [], world = w\<rparr>"

definition query_logs ::
  "('w, 'r) cloudwatch \<Rightarrow> string list \<Rightarrow> 'w \<Rightarrow> (py_error + 'w query_state) option" where
  "query_logs c groups w = query_loop c (initial_state c groups w)"

text \<open>The state after \<open>n\<close> passes of the outer loop, if none of them raised.\<close>

fun cycles :: "('w, 'r) cloudwatch \<Rightarrow> nat \<Rightarrow> 'w query_state \<Rightarrow> py_error + 'w query_state" where
  "cycles c 0 s = Inr s"
| "cycles c (Suc n) s = (case cycle c s of Inl e \<Rightarrow> Inl e | Inr s' \<Rightarrow> cycles c n s')"

text \<open>
  The loop keeps each log group in at most one of its two dictionaries, once.
\<close>

definition consistent :: "'w query_state \<Rightarrow> bool" where
  "consistent s \<longleftrightarrow>
     distinct (map fst (log_groups s)) \<and> distinct (map fst (queries s)) \<and>
     dict_keys (log_groups s) \<inter> dict_keys (queries s) = {}"

text \<open>The log groups the loop still works on.\<close>

definition known :: "'w query_state \<Rightarrow> string set" where
  "known s = dict_keys (log_groups s) \<union> dict_keys (queries s)"

text \<open>
  A small log service for the examples. A result row is its timestamp, and the world is
  the number of calls made so far. The log group \<open>missing\<close> does not exist, \<open>busy\<close> is
  over the limit of concurrent queries, \<open>denied\<close> may not be read; any other log group
  gets a query. Every query is complete when polled; the query of \<open>big\<close> has 10000 rows,
  the last one at 1700, as long as fewer than two calls have been made, and one row
  after that.
\<close>

definition demo_service :: "(nat, int) cloudwatch" where
  "demo_service =
     \<lparr>client_start_query = (\<lambda>w g t0 t1.
        (if g = ''missing'' then Inl ''ResourceNotFoundException''
         else if g = ''busy'' then Inl ''LimitExceededException''
         else if g = ''denied'' then Inl ''AccessDeniedException''
         else Inr (''q-'' @ g), Suc w)),
      client_get_query_results = (\<lambda>w q.
        (Inr (''Complete'',
           if q = ''q-big'' \<and> w < 2 then replicate 9999 1000 @ [1700] else [1800]), Suc w)),
      handle_results = (\<lambda>w rs g. Inr w),
      result_timestamp = (\<lambda>r. Inr r),
      start_timestamp = 100,
      limit_timestamp = 2000\<rparr>"

section \<open>The version-control extractor: pagination\<close>

text \<open>
  A response of the API as \<open>__fetch_all\<close> reads it: the decoded list of the body and the
  header \<open>X-Next-Page\<close>, which may be absent. A request is a resource and the dictionary
  of query parameters. The remote side answers a request with a response, or the request
  fails and \<open>__get\<close> raises \<open>GitLabError\<close>. \<open>__get\<close> keeps the responses it has seen, so
  within one process a request has one answer: the remote side is a function.
\<close>

type_synonym params = "(string \<times> string) list"

record 'a response =
  json :: "'a list"
  X_Next_Page :: "string option"

type_synonym ('u, 'a) remote = "'u \<Rightarrow> params \<Rightarrow> py_error + 'a response"

text \<open>
  \<open>if next_page := response.headers.get("X-Next-Page", None)\<close>: a header that is absent
  or empty is false.
\<close>

definition cursor :: "'a response \<Rightarrow> string" where
  "cursor r = (case X_Next_Page r of None \<Rightarrow> [] | Some page \<Rightarrow> page)"

definition has_cursor :: "'a response \<Rightarrow> bool" where
  "has_cursor r \<longleftrightarrow> cursor r \<noteq> []"

text \<open>
  \<open>__fetch_all\<close> is a generator function: calling it runs nothing, and each \<open>next\<close> runs
  the body up to the following \<open>yield\<close>. A generator object is in one of three states:
  at the head of the \<open>while True:\<close> loop, about to fetch with the current parameters;
  inside the \<open>for\<close> loop over a response, with the items not yet yielded and the header
  of that response; or finished. The parameters are the dictionary the caller passed,
  and the generator writes the key \<open>page\<close> into it. (A caller that passes no dictionary
  gets the default one of the function, which is one object for all such calls: whatever
  an earlier walk left in it is the \<open>params\<close> such a call starts from.)
\<close>

datatype ('u, 'a) fetch_gen =
    Start 'u params
  | Yielding "'a list" 'u params "string option"
  | Finished

text \<open>What one step of the generator's body does, as seen from outside.\<close>

datatype 'a gen_event =
    Yielded 'a
  | Fetched params
  | Advanced
  | Stopped
  | Failed params py_error

text \<open>
  One step of the body. A failed request raises out of the generator, which is finished
  from then on.
\<close>

fun gen_step :: "('u, 'a) remote \<Rightarrow> ('u, 'a) fetch_gen \<Rightarrow> 'a gen_event \<times> ('u, 'a) fetch_gen" where
  "gen_step remote (Start uri additional_params) =
     (case remote uri additional_params of
        Inl e \<Rightarrow> (Failed additional_params e, Finished)
      | Inr response \<Rightarrow>
          (Fetched additional_params,
           Yielding (json response) uri additional_params (X_Next_Page response)))"
| "gen_step remote (Yielding (dataset # rest) uri additional_params header) =
     (Yielded dataset, Yielding rest uri additional_params header)"
| "gen_step remote (Yielding [] uri additional_params header) =
     (case header of
        None \<Rightarrow> (Stopped, Finished)
      | Some next_page \<Rightarrow>
          if next_page \<noteq> [] then
            (Advanced, Start uri (dict_set additional_params ''page'' next_page))
          else (Stopped, Finished))"
| "gen_step remote Finished = (Stopped, Finished)"

text \<open>
  \<open>for dataset in self.__fetch_all(...)\<close> run to its end: the items yielded, the
  requests made, and the exception if one ended the walk. A walk whose pages never run
  out of cursors does not return.
\<close>

partial_function (option) drain ::
  "('u, 'a) remote \<Rightarrow> ('u, 'a) fetch_gen \<Rightarrow> 'a list \<Rightarrow> params list \<Rightarrow>
     ('a list \<times> params list \<times> py_error option) option" where
  "drain remote g yielded requests =
     (case gen_step remote g of
        (event, g') \<Rightarrow>
          (case event of
             Yielded dataset \<Rightarrow> drain remote g' (yielded @ [dataset]) requests
           | Fetched p \<Rightarrow> drain remote g' yielded (requests @ [p])
           | Advanced \<Rightarrow> drain remote g' yielded requests
           | Stopped \<Rightarrow> Some (yielded, requests, None)
           | Failed p e \<Rightarrow> Some (yielded, requests @ [p], Some e)))"

definition fetch_all ::
  "('u, 'a) remote \<Rightarrow> 'u \<Rightarrow> params \<Rightarrow> ('a list \<times> params list \<times> py_error option) option" where
  "fetch_all remote uri additional_params = drain remote (Start uri additional_params) [] []"

text \<open>
  The pages a walk is served, said without the generator: the first request is answered
  by the first page; every page but the last carries a cursor, and the request after it
  is the one before with \<open>page\<close> set to that cursor; the last page carries none.
\<close>

fun serves :: "('u, 'a) remote \<Rightarrow> 'u \<Rightarrow> params \<Rightarrow> 'a response list \<Rightarrow> bool" where
  "serves remote uri p [] \<longleftrightarrow> False"
| "serves remote uri p [page] \<longleftrightarrow> remote uri p = Inr page \<and> \<not> has_cursor page"
| "serves remote uri p (page # next # pages) \<longleftrightarrow>
     remote uri p = Inr page \<and> has_cursor page \<and>
     serves remote uri (dict_set p ''page'' (cursor page)) (next # pages)"

fun requests_for :: "params \<Rightarrow> 'a response list \<Rightarrow> params list" where
  "requests_for p [] = []"
| "requests_for p (page # pages) = p # requests_for (dict_set p ''page'' (cursor page)) pages"

text \<open>A remote side with three pages of numbers for the examples.\<close>

definition three_pages :: "(string, nat) remote" where
  "three_pages uri p =
     (if uri \<noteq> ''/groups/7/projects'' then Inl GitLabError
      else if map_of p ''page'' = None then Inr \<lparr>json = [1, 2], X_Next_Page = Some ''2''\<rparr>
      else if map_of p ''page'' = Some ''2'' then Inr \<lparr>json = [], X_Next_Page = Some ''3''\<rparr>
      else if map_of p ''page'' = Some ''3'' then Inr \<lparr>json = [3], X_Next_Page = Some []\<rparr>
      else Inl GitLabError)"

text \<open>
  What is still to come from a generator in a given state when its walk ends without an
  exception: the items and the requests, in terms of the pages served.
\<close>

definition completes ::
  "('u, 'a) remote \<Rightarrow> ('u, 'a) fetch_gen \<Rightarrow> 'a list \<Rightarrow> params list \<Rightarrow> bool" where
  "completes remote g zs rs \<longleftrightarrow>
     (case g of
        Finished \<Rightarrow> zs = [] \<and> rs = []
      | Start uri p \<Rightarrow>
          (\<exists>pages. serves remote uri p pages \<and> zs = concat (map json pages) \<and>
             rs = requests_for p pages)
      | Yielding xs uri p header \<Rightarrow>
          (if header = None \<or> header = Some [] then zs = xs \<and> rs = []
           else (\<exists>pages. serves remote uri (dict_set p ''page'' (the header)) pages \<and>
                   zs = xs @ concat (map json pages) \<and>
                   rs = requests_for (dict_set p ''page'' (the header)) pages)))"

section \<open>The version-control extractor: blame correlation\<close>













section \<open>The log-aggregation extractor: \<open>__handle_query_results\<close>\<close>










section \<open>Facts about the text helpers\<close>

lemma digit_not_space: "is_digit c \<Longrightarrow> \<not> int_isspace c"
  by (auto simp: is_digit_def int_isspace_def)

lemma digit_not_sign: "is_digit c \<Longrightarrow> c \<noteq> CHR ''-'' \<and> c \<noteq> CHR ''+'' \<and> c \<noteq> CHR ''_''"
  by (auto simp: is_digit_def)

lemma int_strip_digits:
  assumes "ds \<noteq> []" and "list_all is_digit ds"
  shows "int_strip ds = ds"
proof -
  from assms have h: "\<not> int_isspace (hd ds)"
    by (cases ds) (auto dest: digit_not_space)
  from assms have l: "\<not> int_isspace (last ds)"
    by (cases ds rule: rev_cases) (auto dest: digit_not_space)
  from assms(1) h have 1: "dropWhile int_isspace ds = ds"
    by (cases ds) auto
  from assms(1) l have 2: "dropWhile int_isspace (rev ds) = rev ds"
    by (cases ds rule: rev_cases) auto
  show ?thesis by (simp add: int_strip_def 1 2)
qed

lemma digits_us_single: "is_digit c \<Longrightarrow> digits_us acc [c] = Some (10 * acc + digit_val c)"
  by simp

lemma digits_us_step:
  "is_digit c \<Longrightarrow> is_digit d \<Longrightarrow>
     digits_us acc (c # d # ds) = digits_us (10 * acc + digit_val c) (d # ds)"
  by (subst digits_us.simps(2)) (simp add: Let_def digit_not_sign del: digits_us.simps)

lemma digits_us_digits:
  "ds \<noteq> [] \<Longrightarrow> list_all is_digit ds \<Longrightarrow>
     digits_us acc ds = Some (foldl (\<lambda>a c. 10 * a + digit_val c) acc ds)"
proof (induction ds arbitrary: acc)
  case Nil
  then show ?case by simp
next
  case (Cons c cs)
  show ?case
  proof (cases cs)
    case Nil
    with Cons.prems show ?thesis by (simp add: digits_us_single del: digits_us.simps)
  next
    case (Cons d ds')
    with Cons.prems have cd: "is_digit c" "is_digit d" "list_all is_digit cs" by simp_all
    from Cons cd Cons.IH
    have "digits_us (10 * acc + digit_val c) cs =
            Some (foldl (\<lambda>a c. 10 * a + digit_val c) (10 * acc + digit_val c) cs)"
      by blast
    with cd show ?thesis
      by (simp add: Cons digits_us_step del: digits_us.simps)
  qed
qed

lemma py_int_digits:
  assumes "ds \<noteq> []" and "list_all is_digit ds"
  shows "py_int ds = Inr (int (dec_value ds))"
proof -
  from assms obtain c cs where ds: "ds = c # cs" and c: "is_digit c"
    by (cases ds) auto
  from c have ns: "c \<noteq> CHR ''-''" "c \<noteq> CHR ''+''" by (simp_all add: digit_not_sign)
  have "digits_us 0 (c # cs) = Some (dec_value ds)"
    using digits_us_digits [OF assms, of 0] by (simp add: ds dec_value_def del: digits_us.simps)
  moreover have "int_strip (c # cs) = c # cs"
    using int_strip_digits [OF assms] by (simp add: ds)
  ultimately show ?thesis using ns
    by (simp add: py_int_def ds del: digits_us.simps)
qed

section \<open>The writer loop\<close>

lemma with_inserted_Nil: "with_inserted db [] = db"
  by (simp add: with_inserted_def documents_for_def map_option.id [unfolded id_def])

lemma dom_with_inserted: "dom (tables (with_inserted db ms)) = dom (tables db)"
  by (auto simp: with_inserted_def dom_def)

lemma insert_then_rest:
  assumes "tables db l = Some rows"
  shows "with_inserted (db\<lparr>tables := (tables db)(l \<mapsto> rows @ [doc])\<rparr>) ms =
         with_inserted db ((Some l, Some doc) # ms)"
proof -
  have "(\<lambda>label. map_option (\<lambda>rows. rows @ documents_for label ms)
            (((tables db)(l \<mapsto> rows @ [doc])) label)) =
        (\<lambda>label. map_option (\<lambda>rows. rows @ documents_for label ((Some l, Some doc) # ms))
            (tables db label))"
    using assms by (auto simp: fun_eq_iff documents_for_def)
  then show ?thesis by (simp add: with_inserted_def)
qed

lemma storable_dom: "dom (tables db') = dom (tables db) \<Longrightarrow> storable db' m = storable db m"
  by (simp add: storable_def split: prod.splits option.splits)

lemma listen_storable_prefix:
  "\<forall>m \<in> set pre. storable db m \<Longrightarrow> listen db (pre @ rest) = listen (with_inserted db pre) rest"
proof (induction pre arbitrary: db)
  case Nil
  then show ?case by (simp add: with_inserted_Nil)
next
  case (Cons m pre)
  from Cons.prems obtain l doc rows where m: "m = (Some l, Some doc)" and rows: "tables db l = Some rows"
    by (auto simp: storable_def split: option.splits prod.splits)
  let ?db = "db\<lparr>tables := (tables db)(l \<mapsto> rows @ [doc])\<rparr>"
  have ins: "Database_insert db l (Some doc) = Inr ?db"
    by (simp add: Database_insert_def rows)
  have dom: "dom (tables ?db) = dom (tables db)"
    using rows by auto
  from Cons.prems have "\<forall>m \<in> set pre. storable ?db m"
    using storable_dom [OF dom] by simp
  then have "listen ?db (pre @ rest) = listen (with_inserted ?db pre) rest"
    by (rule Cons.IH)
  then show ?case
    by (simp add: m ins insert_then_rest [OF rows])
qed


text \<open>
  Claim C2. The channel carries what the producers put and, after they have ended, the
  one sentinel of the orchestrator: every producer puts a record under the label of one
  of the nine tables, and \<open>(None, None)\<close> is the only message without a label. For
  every finite sequence of such messages followed by the sentinel, the writer appends
  each record to the table named by its label, in the order of dequeuing, and leaves
  its loop at the sentinel, reading nothing after it; the store is closed on the way
  out, which is what flushes the caching layer. Before the sentinel has arrived the
  writer has not left its loop: it has inserted what came and waits for more.
\<close>

theorem listen_contract:
  "(\<forall>m \<in> set pre. storable (Database_init stored) m) \<longrightarrow>
     listen (Database_init stored) (pre @ (None, None) # post) =
       Returned (Database_close (with_inserted (Database_init stored) pre))
     \<and> listen (Database_init stored) pre = Waiting (with_inserted (Database_init stored) pre)
     \<and> (\<forall>label \<in> set TYPE_MAP_labels.
           tables (with_inserted (Database_init stored) pre) label =
             Some (stored label @ documents_for label pre))
     \<and> closed (Database_close (with_inserted (Database_init stored) pre))"
proof (intro impI conjI ballI)
  assume pre: "\<forall>m \<in> set pre. storable (Database_init stored) m"
  show "listen (Database_init stored) (pre @ (None, None) # post) =
       Returned (Database_close (with_inserted (Database_init stored) pre))"
    using listen_storable_prefix [OF pre] by simp
  show "listen (Database_init stored) pre = Waiting (with_inserted (Database_init stored) pre)"
    using listen_storable_prefix [OF pre, of "[]"] by simp
  show "closed (Database_close (with_inserted (Database_init stored) pre))"
    by (simp add: Database_close_def)
  show "tables (with_inserted (Database_init stored) pre) label =
             Some (stored label @ documents_for label pre)"
    if "label \<in> set TYPE_MAP_labels" for label
    using that by (simp add: with_inserted_def Database_init_def)
qed

text \<open>Three records for two tables, the sentinel, and a message that is never read.\<close>

theorem listen_contract_witness:
  "listen (Database_init (\<lambda>l. [])) [(Some ''user'', Some doc_a), (Some ''story'', Some doc_b),
       (Some ''user'', Some doc_b), (None, None), (Some ''user'', Some doc_a)] =
     Returned (Database_close (with_inserted (Database_init (\<lambda>l. []))
       [(Some ''user'', Some doc_a), (Some ''story'', Some doc_b), (Some ''user'', Some doc_b)]))
   \<and> tables (with_inserted (Database_init (\<lambda>l. []))
       [(Some ''user'', Some doc_a), (Some ''story'', Some doc_b), (Some ''user'', Some doc_b)])
       ''user'' = Some [doc_a, doc_b]"
proof -
  have "\<forall>m \<in> set [(Some ''user'', Some doc_a), (Some ''story'', Some doc_b),
       (Some ''user'', Some doc_b)]. storable (Database_init (\<lambda>l. [])) m"
    by (simp add: storable_def Database_init_def TYPE_MAP_labels_def domIff)
  then show ?thesis
    using listen_contract [of "[(Some ''user'', Some doc_a), (Some ''story'', Some doc_b),
       (Some ''user'', Some doc_b)]" "\<lambda>l. []" "[(Some ''user'', Some doc_a)]"]
    by (simp add: TYPE_MAP_labels_def documents_for_def)
qed

section \<open>The story id of a merge request\<close>

lemma takeWhile_digits_split:
  assumes "takeWhile is_digit u \<noteq> []"
  shows "\<exists>rest. u = takeWhile is_digit u @ rest \<and> (rest = [] \<or> \<not> is_digit (hd rest))"
proof -
  have "u = takeWhile is_digit u @ dropWhile is_digit u" by simp
  moreover have "dropWhile is_digit u = [] \<or> \<not> is_digit (hd (dropWhile is_digit u))"
    using hd_dropWhile [of is_digit u] by blast
  ultimately show ?thesis by blast
qed

lemma try_seps_sound:
  "try_seps m u = Some ds \<Longrightarrow>
     \<exists>m' \<le> m. ds = takeWhile is_digit (drop m' u) \<and> ds \<noteq> []"
proof (induction m)
  case 0
  then show ?case by (auto simp: Let_def split: if_splits)
next
  case (Suc k)
  show ?case
  proof (cases "takeWhile is_digit (drop (Suc k) u) = []")
    case True
    with Suc.prems have "try_seps k u = Some ds" by simp
    with Suc.IH obtain m' where "m' \<le> k" "ds = takeWhile is_digit (drop m' u)" "ds \<noteq> []"
      by blast
    then show ?thesis by (intro exI [of _ m']) simp
  next
    case False
    with Suc.prems have "ds = takeWhile is_digit (drop (Suc k) u)" by (simp add: Let_def)
    with False show ?thesis by blast
  qed
qed

lemma try_seps_complete:
  "m0 \<le> m \<Longrightarrow> takeWhile is_digit (drop m0 u) \<noteq> [] \<Longrightarrow> try_seps m u \<noteq> None"
proof (induction m)
  case 0
  then show ?case by simp
next
  case (Suc k)
  show ?case
  proof (cases "m0 = Suc k")
    case True
    with Suc.prems show ?thesis by (simp add: Let_def)
  next
    case False
    with Suc.prems have "m0 \<le> k" by simp
    with Suc have "try_seps k u \<noteq> None" by blast
    then show ?thesis by (simp add: Let_def)
  qed
qed

lemma try_letters_sound:
  "try_letters n s = Some ds \<Longrightarrow>
     \<exists>n' m'. 5 \<le> n' \<and> n' \<le> n \<and> m' \<le> length (takeWhile is_sep (drop n' s)) \<and>
       ds = takeWhile is_digit (drop m' (drop n' s)) \<and> ds \<noteq> []"
proof (induction n)
  case 0
  then show ?case by simp
next
  case (Suc n)
  let ?u = "drop (Suc n) s"
  from Suc.prems have big: "\<not> Suc n < 5" by (auto split: if_splits)
  show ?case
  proof (cases "try_seps (length (takeWhile is_sep ?u)) ?u")
    case None
    with Suc.prems big have "try_letters n s = Some ds" by simp
    with Suc.IH obtain n' m' where "5 \<le> n'" "n' \<le> n"
      "m' \<le> length (takeWhile is_sep (drop n' s))"
      "ds = takeWhile is_digit (drop m' (drop n' s))" "ds \<noteq> []"
      by blast
    then show ?thesis by (intro exI [of _ n'] exI [of _ m']) simp
  next
    case (Some ds')
    with Suc.prems big have "ds' = ds" by simp
    with Some obtain m' where "m' \<le> length (takeWhile is_sep ?u)"
      "ds = takeWhile is_digit (drop m' ?u)" "ds \<noteq> []"
      using try_seps_sound by blast
    with big show ?thesis by (intro exI [of _ "Suc n"] exI [of _ m']) simp
  qed
qed

lemma try_letters_complete:
  "5 \<le> n0 \<Longrightarrow> n0 \<le> n \<Longrightarrow> m0 \<le> length (takeWhile is_sep (drop n0 s)) \<Longrightarrow>
     takeWhile is_digit (drop m0 (drop n0 s)) \<noteq> [] \<Longrightarrow> try_letters n s \<noteq> None"
proof (induction n)
  case 0
  then show ?case by simp
next
  case (Suc n)
  let ?u = "drop (Suc n) s"
  from Suc.prems have big: "\<not> Suc n < 5" by simp
  show ?case
  proof (cases "n0 = Suc n")
    case True
    with Suc.prems have "try_seps (length (takeWhile is_sep ?u)) ?u \<noteq> None"
      using try_seps_complete [of m0 "length (takeWhile is_sep ?u)" ?u] by simp
    with big show ?thesis by (auto split: option.splits)
  next
    case False
    with Suc.prems have "n0 \<le> n" by simp
    with Suc have "try_letters n s \<noteq> None" by blast
    with big show ?thesis by (auto split: option.splits)
  qed
qed

lemma prefix_of_takeWhile:
  assumes n: "n \<le> length (takeWhile P s)"
  shows "\<forall>c \<in> set (take n s). P c"
proof -
  have "take n (takeWhile P s @ dropWhile P s) = take n (takeWhile P s)"
    using n by (simp del: takeWhile_dropWhile_id)
  then have "take n s = take n (takeWhile P s)" by simp
  then have "set (take n s) \<subseteq> set (takeWhile P s)"
    using set_take_subset [of n "takeWhile P s"] by simp
  then show ?thesis by (auto dest: set_takeWhileD)
qed

lemma takeWhile_covers:
  "\<forall>c \<in> set xs. P c \<Longrightarrow> length xs \<le> length (takeWhile P (xs @ ys))"
  by (simp add: takeWhile_append2)

lemma match_here_sound:
  assumes "match_here acr t = Some ds"
  shows "key_at acr t ds"
proof -
  from assms obtain n m where n: "5 \<le> n" "n \<le> length (takeWhile (in_acronym acr) t)"
    and m: "m \<le> length (takeWhile is_sep (drop n t))"
    and ds: "ds = takeWhile is_digit (drop m (drop n t))" "ds \<noteq> []"
    unfolding match_here_def using try_letters_sound by blast
  define u where "u = drop m (drop n t)"
  from n(2) have 1: "\<forall>c \<in> set (take n t). in_acronym acr c"
    by (rule prefix_of_takeWhile)
  from m have 2: "\<forall>c \<in> set (take m (drop n t)). is_sep c"
    by (rule prefix_of_takeWhile)
  have "takeWhile is_digit u \<noteq> []" "ds = takeWhile is_digit u"
    unfolding u_def using ds by blast+
  then obtain rest where 3: "u = ds @ rest" "rest = [] \<or> \<not> is_digit (hd rest)"
    using takeWhile_digits_split [of u] by metis
  have "length (takeWhile (in_acronym acr) t) \<le> length t"
    by (rule length_takeWhile_le)
  with n(2) have len: "length (take n t) = n" by simp
  have "take n t @ take m (drop n t) @ u = t"
    unfolding u_def by (simp only: append_take_drop_id)
  then have "t = take n t @ take m (drop n t) @ ds @ rest"
    by (simp only: 3(1))
  moreover have "\<forall>c \<in> set ds. is_digit c"
    using ds(1) by (auto dest: set_takeWhileD)
  moreover have "5 \<le> length (take n t)" using n(1) len by simp
  ultimately show ?thesis
    unfolding key_at_def using 1 2 ds(2) 3(2) by blast
qed

lemma match_here_complete:
  assumes "key_at acr t ds"
  shows "match_here acr t \<noteq> None"
proof -
  from assms obtain letters seps rest where t: "t = letters @ seps @ ds @ rest"
    and l: "5 \<le> length letters" "\<forall>c \<in> set letters. in_acronym acr c"
    and s: "\<forall>c \<in> set seps. is_sep c"
    and d: "ds \<noteq> []" "\<forall>c \<in> set ds. is_digit c"
    unfolding key_at_def by blast
  have 1: "length letters \<le> length (takeWhile (in_acronym acr) t)"
    unfolding t using l(2) by (rule takeWhile_covers)
  have dr: "drop (length letters) t = seps @ ds @ rest" by (simp add: t)
  have 2: "length seps \<le> length (takeWhile is_sep (drop (length letters) t))"
    unfolding dr using s by (rule takeWhile_covers)
  from d obtain c cs where "ds = c # cs" "is_digit c" by (cases ds) auto
  then have "takeWhile is_digit (drop (length seps) (seps @ ds @ rest)) \<noteq> []"
    by simp
  then have 3: "takeWhile is_digit (drop (length seps) (drop (length letters) t)) \<noteq> []"
    unfolding dr .
  show ?thesis
    unfolding match_here_def using l(1) 1 2 3 by (rule try_letters_complete)
qed

lemma story_search_sound:
  "story_search acr s = Some ds \<Longrightarrow> \<exists>pre t. s = pre @ t \<and> key_at acr t ds"
proof (induction s)
  case Nil
  then have "key_at acr [] ds" by (simp add: match_here_sound)
  then show ?case by blast
next
  case (Cons c cs)
  show ?case
  proof (cases "match_here acr (c # cs)")
    case None
    with Cons.prems have "story_search acr cs = Some ds" by simp
    with Cons.IH obtain pre t where "cs = pre @ t" "key_at acr t ds" by blast
    then have "c # cs = (c # pre) @ t \<and> key_at acr t ds" by simp
    then show ?thesis by blast
  next
    case (Some ds')
    with Cons.prems have "match_here acr (c # cs) = Some ds" by simp
    then have "c # cs = [] @ (c # cs) \<and> key_at acr (c # cs) ds"
      by (simp add: match_here_sound)
    then show ?thesis by blast
  qed
qed

lemma story_search_complete:
  "s = pre @ t \<Longrightarrow> key_at acr t ds \<Longrightarrow> story_search acr s \<noteq> None"
proof (induction pre arbitrary: s)
  case Nil
  then have "match_here acr s \<noteq> None" by (simp add: match_here_complete)
  then show ?case by (cases s) (auto split: option.splits)
next
  case (Cons c pre)
  then have "story_search acr (pre @ t) \<noteq> None" by blast
  with Cons.prems show ?case by (auto split: option.splits)
qed

lemma key_at_digits: "key_at acr t ds \<Longrightarrow> ds \<noteq> [] \<and> list_all is_digit ds"
  by (auto simp: key_at_def list_all_iff)

lemma story_search_value:
  assumes "story_search acr s = Some ds"
  shows "py_int ds = Inr (int (dec_value ds))"
proof -
  from assms obtain pre t where "key_at acr t ds"
    using story_search_sound by blast
  then have "ds \<noteq> []" "list_all is_digit ds"
    using key_at_digits by blast+
  then show ?thesis by (rule py_int_digits)
qed

text \<open>
  Claim C1, as the code has it. For a non-empty acronym of letters and digits and a
  merge request with a description, whenever the transformation returns: the search
  finds digits
  exactly when some suffix of title+description begins with an issue key (at least five
  characters of the acronym's character set in either case, optional separators,
  digits), and the digits found belong to such a key; when their value is from 1 to 999
  it is the story id; when it is 1000 or more, or when no key is found, the story id is
  \<open>None\<close>.
\<close>

theorem Merge_story_id:
  assumes "acr \<noteq> []" and "\<forall>c \<in> set acr. is_alnum c"
    and "mr_description d = Some desc"
    and "Merge_transform_input ts d acr = Inr doc"
  shows "(story_search acr (mr_title d @ desc) = None \<longleftrightarrow>
            \<not> (\<exists>pre t ds. mr_title d @ desc = pre @ t \<and> key_at acr t ds))
     \<and> (story_search acr (mr_title d @ desc) = None \<longrightarrow> map_of doc ''story_id'' = Some PNone)
     \<and> (\<forall>ds. story_search acr (mr_title d @ desc) = Some ds \<longrightarrow>
            (\<exists>pre t. mr_title d @ desc = pre @ t \<and> key_at acr t ds) \<and>
            (0 < dec_value ds \<and> dec_value ds < 1000 \<longrightarrow>
               map_of doc ''story_id'' = Some (PInt (int (dec_value ds)))) \<and>
            (1000 \<le> dec_value ds \<longrightarrow> map_of doc ''story_id'' = Some PNone))"
proof (intro conjI allI impI)
  let ?text = "mr_title d @ desc"
  show "story_search acr ?text = None \<longleftrightarrow>
          \<not> (\<exists>pre t ds. ?text = pre @ t \<and> key_at acr t ds)"
  proof
    assume "story_search acr ?text = None"
    then show "\<not> (\<exists>pre t ds. ?text = pre @ t \<and> key_at acr t ds)"
      using story_search_complete by blast
  next
    assume none: "\<not> (\<exists>pre t ds. ?text = pre @ t \<and> key_at acr t ds)"
    show "story_search acr ?text = None"
    proof (cases "story_search acr ?text")
      case None
      then show ?thesis .
    next
      case (Some ds)
      then obtain pre t where "?text = pre @ t" "key_at acr t ds"
        using story_search_sound by blast
      with none show ?thesis by blast
    qed
  qed
  show "map_of doc ''story_id'' = Some PNone" if "story_search acr ?text = None"
    using that assms(3,4)
    by (auto simp: Merge_transform_input_def split: sum.splits)
  fix ds
  assume ds: "story_search acr ?text = Some ds"
  then show "\<exists>pre t. ?text = pre @ t \<and> key_at acr t ds"
    by (rule story_search_sound)
  from ds have v: "py_int ds = Inr (int (dec_value ds))"
    by (rule story_search_value)
  show "map_of doc ''story_id'' = Some (PInt (int (dec_value ds)))"
    if "0 < dec_value ds \<and> dec_value ds < 1000"
    using that assms(3,4) ds v
    by (auto simp: Merge_transform_input_def split: sum.splits)
  show "map_of doc ''story_id'' = Some PNone" if "1000 \<le> dec_value ds"
    using that assms(3,4) ds v
    by (auto simp: Merge_transform_input_def split: sum.splits)
qed

lemma search_proje: "story_search ''PROJE'' ''PROJE-42 fix bug'' = Some ''42''"
  by code_simp

text \<open>With the acronym \<open>PROJE\<close>, the title \<open>PROJE-42 fix bug\<close> gives story id 42.\<close>

theorem Merge_story_id_witness:
  "Merge_transform_input epoch_zero mr_proje ''PROJE'' =
     Inr [(''id'', PInt 502), (''internal_id'', PInt 8), (''project_id'', PInt 12),
          (''author_id'', PStr (User_hash_id ''alice'')), (''timestamp'', PInt 0),
          (''story_id'', PInt 42)]
   \<and> map_of [(''id'', PInt 502), (''internal_id'', PInt 8), (''project_id'', PInt 12),
          (''author_id'', PStr (User_hash_id ''alice'')), (''timestamp'', PInt 0),
          (''story_id'', PInt 42)] ''story_id'' = Some (PInt 42)"
proof -
  have ne: "''PROJE'' \<noteq> []" by simp
  have al: "\<forall>c \<in> set ''PROJE''. is_alnum c"
    by (simp add: is_alnum_def)
  have de: "mr_description mr_proje = Some []" and ti: "mr_title mr_proje = ''PROJE-42 fix bug''"
    by (simp_all add: mr_proje_def)
  have v: "py_int ''42'' = Inr 42"
    using py_int_digits [of "''42''"] by (simp add: is_digit_def dec_value_def digit_val_def)
  have run: "Merge_transform_input epoch_zero mr_proje ''PROJE'' =
     Inr [(''id'', PInt 502), (''internal_id'', PInt 8), (''project_id'', PInt 12),
          (''author_id'', PStr (User_hash_id ''alice'')), (''timestamp'', PInt 0),
          (''story_id'', PInt 42)]"
    by (simp add: Merge_transform_input_def de ti search_proje v epoch_zero_def
        del: story_search.simps) (simp add: mr_proje_def)
  have "dec_value ''42'' = 42"
    by (simp add: dec_value_def digit_val_def)
  then show ?thesis
    using Merge_story_id [OF ne al de run] run
    by (simp add: ti search_proje del: story_search.simps)
qed

text \<open>
  The example of the claim fails: \<open>PROJ\<close> has four characters, the pattern asks for a run
  of five, and the title \<open>PROJ-42 fix bug\<close> has no such run before the digits. The story
  id is \<open>None\<close>, not 42.
\<close>

theorem Merge_story_id_PROJ_counterexample:
  "Merge_transform_input epoch_zero mr_proj ''PROJ'' =
     Inr [(''id'', PInt 501), (''internal_id'', PInt 7), (''project_id'', PInt 12),
          (''author_id'', PStr (User_hash_id ''alice'')), (''timestamp'', PInt 0),
          (''story_id'', PNone)]"
proof -
  have "story_search ''PROJ'' ''PROJ-42 fix bug'' = None"
    by code_simp
  then show ?thesis
    by (simp add: Merge_transform_input_def mr_proj_def epoch_zero_def
        del: story_search.simps)
qed

section \<open>Facts about the query loop\<close>

lemma dict_keys_set: "dict_keys (dict_set d k v) = insert k (dict_keys d)"
proof (induction d)
  case Nil
  then show ?case by (simp add: dict_keys_def)
next
  case (Cons a d)
  obtain k' v' where a: "a = (k', v')" by (cases a) auto
  show ?case
  proof (cases "k' = k")
    case True
    then show ?thesis by (auto simp: a dict_keys_def)
  next
    case False
    then have "dict_keys (dict_set (a # d) k v) = insert k' (dict_keys (dict_set d k v))"
      by (simp add: a dict_keys_def)
    also have "\<dots> = insert k' (insert k (dict_keys d))" by (simp add: Cons.IH)
    also have "\<dots> = insert k (dict_keys (a # d))" by (auto simp: a dict_keys_def)
    finally show ?thesis .
  qed
qed

lemma dict_keys_pop: "dict_keys (dict_pop d k) = dict_keys d - {k}"
  by (auto simp: dict_keys_def dict_pop_def image_iff)

lemma dict_keys_Nil: "dict_keys [] = {}"
  by (simp add: dict_keys_def)

lemma dict_keys_Cons: "dict_keys ((k, v) # d) = insert k (dict_keys d)"
  by (simp add: dict_keys_def)

lemma distinct_dict_set: "distinct (map fst d) \<Longrightarrow> distinct (map fst (dict_set d k v))"
proof (induction d)
  case Nil
  then show ?case by simp
next
  case (Cons a d)
  have "fst ` set (dict_set d k v) = insert k (fst ` set d)"
    using dict_keys_set [of d k v] by (simp add: dict_keys_def)
  with Cons show ?case by (cases a) auto
qed

lemma distinct_dict_pop: "distinct (map fst d) \<Longrightarrow> distinct (map fst (dict_pop d k))"
  by (simp add: dict_pop_def distinct_map_filter)

lemma map_of_dict_set: "map_of (dict_set d k v) = (map_of d)(k \<mapsto> v)"
  by (induction d) (auto simp: fun_eq_iff)

lemma map_of_dict_pop: "map_of (dict_pop d k) = (map_of d)(k := None)"
  by (induction d) (auto simp: fun_eq_iff dict_pop_def)

lemma dict_pop_head:
  "distinct (map fst ((k, v) # d)) \<Longrightarrow> dict_pop ((k, v) # d) k = d"
proof -
  assume "distinct (map fst ((k, v) # d))"
  then have "\<forall>x \<in> set d. fst x \<noteq> k" by auto
  then have "filter (\<lambda>(k', v). k' \<noteq> k) d = d"
    by (intro filter_True) auto
  then show ?thesis by (simp add: dict_pop_def)
qed

lemma dict_set_head:
  "k \<noteq> k' \<Longrightarrow> dict_set ((k', v') # d) k v = (k', v') # dict_set d k v"
  by simp

lemma dict_pop_take:
  assumes "distinct (map fst d)" and "i < length d" and "d ! i = (k, v)"
  shows "take i (dict_pop d k) = take i d" and "i \<le> length (dict_pop d k)"
proof -
  have d: "d = take i d @ (k, v) # drop (Suc i) d"
    using assms(2,3) by (metis id_take_nth_drop)
  with assms(1) have nk: "\<forall>x \<in> set (take i d). fst x \<noteq> k"
    by (metis (no_types, lifting) distinct_append map_append disjoint_iff image_eqI
        list.set_intros(1) list.simps(9) set_map fst_conv)
  then have f: "filter (\<lambda>(k', v). k' \<noteq> k) (take i d) = take i d"
    by (intro filter_True) auto
  have "dict_pop d k = take i d @ dict_pop (drop (Suc i) d) k"
    by (subst d) (simp add: dict_pop_def f)
  moreover have "length (take i d) = i" using assms(2) by simp
  ultimately show "take i (dict_pop d k) = take i d" and "i \<le> length (dict_pop d k)"
    by simp_all
qed

text \<open>One step of each loop, as an equation.\<close>

lemma submit_pending_Nil: "log_groups s = [] \<Longrightarrow> submit_pending c s = Inr s"
  by (simp add: submit_pending.simps [of c s])

lemma submit_pending_error:
  "log_groups s = (g, t0, t1) # rest \<Longrightarrow> start_error_query c (world s) g t0 t1 = (Inl e, w) \<Longrightarrow>
     submit_pending c s = Inl e"
  by (simp add: submit_pending.simps [of c s])

lemma submit_pending_limit:
  "log_groups s = (g, t0, t1) # rest \<Longrightarrow>
     start_error_query c (world s) g t0 t1 = (Inr LIMIT_REACHED, w) \<Longrightarrow>
     submit_pending c s = Inr (s\<lparr>world := w\<rparr>)"
  by (simp add: submit_pending.simps [of c s])

lemma submit_pending_not_found:
  "log_groups s = (g, t0, t1) # rest \<Longrightarrow>
     start_error_query c (world s) g t0 t1 = (Inr NOT_FOUND, w) \<Longrightarrow>
     submit_pending c s =
       submit_pending c (s\<lparr>log_groups := dict_pop (log_groups s) g, world := w\<rparr>)"
  by (simp add: submit_pending.simps [of c s])

lemma submit_pending_started:
  "log_groups s = (g, t0, t1) # rest \<Longrightarrow>
     start_error_query c (world s) g t0 t1 = (Inr (QueryId q), w) \<Longrightarrow>
     submit_pending c s =
       submit_pending c (s\<lparr>queries := dict_set (queries s) g q,
          log_groups := dict_pop (log_groups s) g, world := w\<rparr>)"
  by (simp add: submit_pending.simps [of c s])

text \<open>
  A property that every step of the submission loop keeps holds for its result.
\<close>

lemma submit_pending_rule:
  assumes res: "submit_pending c s = Inr s'"
    and inv: "I s"
    and drop: "\<And>s g tr rest w. I s \<Longrightarrow> log_groups s = (g, tr) # rest \<Longrightarrow>
        I (s\<lparr>log_groups := dict_pop (log_groups s) g, world := w\<rparr>)"
    and start: "\<And>s g tr rest w q. I s \<Longrightarrow> log_groups s = (g, tr) # rest \<Longrightarrow>
        I (s\<lparr>queries := dict_set (queries s) g q,
             log_groups := dict_pop (log_groups s) g, world := w\<rparr>)"
    and stop: "\<And>s w. I s \<Longrightarrow> I (s\<lparr>world := w\<rparr>)"
  shows "I s'"
  using res inv
proof (induction "length (log_groups s)" arbitrary: s rule: less_induct)
  case less
  show ?case
  proof (cases "log_groups s")
    case Nil
    with less.prems show ?thesis by (simp add: submit_pending_Nil)
  next
    case (Cons a rest)
    obtain g t0 t1 where a: "a = (g, t0, t1)" by (cases a) auto
    have lg: "log_groups s = (g, t0, t1) # rest" using Cons a by simp
    have shorter: "length (dict_pop (log_groups s) g) < length (log_groups s)"
      using lg by (auto simp: dict_pop_def intro: le_imp_less_Suc)
    obtain r w where r: "start_error_query c (world s) g t0 t1 = (r, w)"
      by (cases "start_error_query c (world s) g t0 t1") auto
    show ?thesis
    proof (cases r)
      case (Inl e)
      with less.prems lg r show ?thesis by (simp add: submit_pending_error)
    next
      case (Inr y)
      show ?thesis
      proof (cases y)
        case (QueryId q)
        let ?s = "s\<lparr>queries := dict_set (queries s) g q,
          log_groups := dict_pop (log_groups s) g, world := w\<rparr>"
        from less.prems(1) lg r Inr QueryId have "submit_pending c ?s = Inr s'"
          by (simp add: submit_pending_started)
        moreover have "I ?s" using less.prems(2) lg by (rule start)
        moreover have "length (log_groups ?s) < length (log_groups s)"
          using shorter by simp
        ultimately show ?thesis using less.hyps by blast
      next
        case LIMIT_REACHED
        with less.prems(1) lg r Inr have "s' = s\<lparr>world := w\<rparr>"
          by (simp add: submit_pending_limit)
        with less.prems(2) show ?thesis by (simp add: stop)
      next
        case NOT_FOUND
        let ?s = "s\<lparr>log_groups := dict_pop (log_groups s) g, world := w\<rparr>"
        from less.prems(1) lg r Inr NOT_FOUND have "submit_pending c ?s = Inr s'"
          by (simp add: submit_pending_not_found)
        moreover have "I ?s" using less.prems(2) lg by (rule drop)
        moreover have "length (log_groups ?s) < length (log_groups s)"
          using shorter by simp
        ultimately show ?thesis using less.hyps by blast
      qed
    qed
  qed
qed

lemma poll_queries_rule:
  assumes res: "poll_queries c n s = Inr s'"
    and inv: "I s"
    and wait: "\<And>s w. I s \<Longrightarrow> I (s\<lparr>world := w\<rparr>)"
    and finish: "\<And>s i g q w. I s \<Longrightarrow> i < length (queries s) \<Longrightarrow> queries s ! i = (g, q) \<Longrightarrow>
        I (s\<lparr>queries := dict_pop (queries s) g, world := w\<rparr>)"
    and again: "\<And>s i g q w ts. I s \<Longrightarrow> i < length (queries s) \<Longrightarrow> queries s ! i = (g, q) \<Longrightarrow>
        I (s\<lparr>log_groups := dict_set (log_groups s) g (ts, limit_timestamp c),
             queries := dict_pop (queries s) g, world := w\<rparr>)"
  shows "I s'"
  using res inv
proof (induction n arbitrary: s)
  case 0
  then show ?case by simp
next
  case (Suc i)
  from Suc.prems(1) have i: "i < length (queries s)"
    by (auto split: if_splits)
  obtain g q where gq: "queries s ! i = (g, q)" by (cases "queries s ! i") auto
  obtain r w where r: "get_query_results c (world s) q = (r, w)"
    by (cases "get_query_results c (world s) q") auto
  show ?case
  proof (cases r)
    case (Inl e)
    with Suc.prems(1) i gq r show ?thesis by simp
  next
    case (Inr y)
    show ?thesis
    proof (cases y)
      case IN_PROGRESS
      with Suc.prems(1) i gq r Inr have "poll_queries c i (s\<lparr>world := w\<rparr>) = Inr s'" by simp
      moreover have "I (s\<lparr>world := w\<rparr>)" using Suc.prems(2) by (rule wait)
      ultimately show ?thesis by (rule Suc.IH)
    next
      case THROTTLED
      with Suc.prems(1) i gq r Inr have "poll_queries c i (s\<lparr>world := w\<rparr>) = Inr s'" by simp
      moreover have "I (s\<lparr>world := w\<rparr>)" using Suc.prems(2) by (rule wait)
      ultimately show ?thesis by (rule Suc.IH)
    next
      case (Results rs)
      from Suc.prems(1) i gq r Inr Results obtain w' where
        h: "handle_results c w rs g = Inr w'"
        by (cases "handle_results c w rs g") auto
      show ?thesis
      proof (cases "QUERY_LIMIT \<le> length rs")
        case True
        from Suc.prems(1) i gq r Inr Results h True obtain ts where
          ts: "result_timestamp c (last rs) = Inr ts"
          by (cases "result_timestamp c (last rs)") auto
        let ?s = "s\<lparr>log_groups := dict_set (log_groups s) g (ts, limit_timestamp c),
             queries := dict_pop (queries s) g, world := w'\<rparr>"
        from Suc.prems(1) i gq r Inr Results h True ts have "poll_queries c i ?s = Inr s'"
          by simp
        moreover have "I ?s" using Suc.prems(2) i gq by (rule again)
        ultimately show ?thesis by (rule Suc.IH)
      next
        case False
        let ?s = "s\<lparr>queries := dict_pop (queries s) g, world := w'\<rparr>"
        from Suc.prems(1) i gq r Inr Results h False have "poll_queries c i ?s = Inr s'"
          by simp
        moreover have "I ?s" using Suc.prems(2) i gq by (rule finish)
        ultimately show ?thesis by (rule Suc.IH)
      qed
    qed
  qed
qed

lemma nth_key: "i < length d \<Longrightarrow> d ! i = (g, q) \<Longrightarrow> g \<in> dict_keys d"
  by (metis dict_keys_def fst_conv image_eqI nth_mem)

lemma consistent_world: "consistent (s\<lparr>world := w\<rparr>) = consistent s"
  by (simp add: consistent_def)

lemma consistent_drop:
  "consistent s \<Longrightarrow> consistent (s\<lparr>log_groups := dict_pop (log_groups s) g, world := w\<rparr>)"
  by (auto simp: consistent_def distinct_dict_pop dict_keys_pop)

lemma consistent_start:
  "consistent s \<Longrightarrow>
     consistent (s\<lparr>queries := dict_set (queries s) g q,
        log_groups := dict_pop (log_groups s) g, world := w\<rparr>)"
  by (auto simp: consistent_def distinct_dict_pop distinct_dict_set dict_keys_pop dict_keys_set)

lemma consistent_finish:
  "consistent s \<Longrightarrow> consistent (s\<lparr>queries := dict_pop (queries s) g, world := w\<rparr>)"
  by (auto simp: consistent_def distinct_dict_pop dict_keys_pop)

lemma consistent_again:
  "consistent s \<Longrightarrow>
     consistent (s\<lparr>log_groups := dict_set (log_groups s) g v,
        queries := dict_pop (queries s) g, world := w\<rparr>)"
  by (auto simp: consistent_def distinct_dict_pop distinct_dict_set dict_keys_pop dict_keys_set)

lemma submit_pending_consistent:
  assumes "submit_pending c s = Inr s'" and "consistent s"
  shows "consistent s'"
proof (rule submit_pending_rule [where I = consistent, OF assms])
  fix t :: "'a query_state" and g w
  assume "consistent t"
  then show "consistent (t\<lparr>log_groups := dict_pop (log_groups t) g, world := w\<rparr>)"
    by (rule consistent_drop)
next
  fix t :: "'a query_state" and g w q
  assume "consistent t"
  then show "consistent (t\<lparr>queries := dict_set (queries t) g q,
      log_groups := dict_pop (log_groups t) g, world := w\<rparr>)"
    by (rule consistent_start)
next
  fix t :: "'a query_state" and w
  assume "consistent t"
  then show "consistent (t\<lparr>world := w\<rparr>)" by (simp add: consistent_world)
qed

lemma poll_queries_consistent:
  assumes "poll_queries c n s = Inr s'" and "consistent s"
  shows "consistent s'"
proof (rule poll_queries_rule [where I = consistent, OF assms])
  fix t :: "'a query_state" and w
  assume "consistent t"
  then show "consistent (t\<lparr>world := w\<rparr>)" by (simp add: consistent_world)
next
  fix t :: "'a query_state" and g w
  assume "consistent t"
  then show "consistent (t\<lparr>queries := dict_pop (queries t) g, world := w\<rparr>)"
    by (rule consistent_finish)
next
  fix t :: "'a query_state" and g w ts
  assume "consistent t"
  then show "consistent (t\<lparr>log_groups := dict_set (log_groups t) g (ts, limit_timestamp c),
      queries := dict_pop (queries t) g, world := w\<rparr>)"
    by (rule consistent_again)
qed

lemma cycle_consistent: "cycle c s = Inr s' \<Longrightarrow> consistent s \<Longrightarrow> consistent s'"
  by (auto simp: cycle_def split: sum.splits
      dest: submit_pending_consistent poll_queries_consistent)

lemma submit_pending_known:
  assumes "submit_pending c s = Inr s'"
  shows "known s' \<subseteq> known s"
proof -
  have "known s' \<subseteq> known s"
  proof (rule submit_pending_rule [where I = "\<lambda>t. known t \<subseteq> known s", OF assms])
    show "known s \<subseteq> known s" by simp
  next
    fix t g tr rest w
    assume "known t \<subseteq> known s" "log_groups t = (g, tr) # rest"
    then show "known (t\<lparr>log_groups := dict_pop (log_groups t) g, world := w\<rparr>) \<subseteq> known s"
      by (auto simp: known_def dict_keys_pop)
  next
    fix t g tr rest w q
    assume "known t \<subseteq> known s" "log_groups t = (g, tr) # rest"
    then show "known (t\<lparr>queries := dict_set (queries t) g q,
        log_groups := dict_pop (log_groups t) g, world := w\<rparr>) \<subseteq> known s"
      by (auto simp: known_def dict_keys_pop dict_keys_set dict_keys_Cons)
  next
    fix t w
    assume "known t \<subseteq> known s"
    then show "known (t\<lparr>world := w\<rparr>) \<subseteq> known s" by (simp add: known_def)
  qed
  then show ?thesis .
qed

lemma poll_queries_known:
  assumes "poll_queries c n s = Inr s'"
  shows "known s' \<subseteq> known s"
proof (rule poll_queries_rule [where I = "\<lambda>t. known t \<subseteq> known s", OF assms])
  show "known s \<subseteq> known s" by simp
next
  fix t w
  assume "known t \<subseteq> known s"
  then show "known (t\<lparr>world := w\<rparr>) \<subseteq> known s" by (simp add: known_def)
next
  fix t i g q w
  assume "known t \<subseteq> known s"
  then show "known (t\<lparr>queries := dict_pop (queries t) g, world := w\<rparr>) \<subseteq> known s"
    by (auto simp: known_def dict_keys_pop)
next
  fix t i g q w ts
  assume "known t \<subseteq> known s" "i < length (queries t)" "queries t ! i = (g, q)"
  moreover from this have "g \<in> dict_keys (queries t)" by (simp add: nth_key)
  ultimately show "known (t\<lparr>log_groups := dict_set (log_groups t) g (ts, limit_timestamp c),
      queries := dict_pop (queries t) g, world := w\<rparr>) \<subseteq> known s"
    by (auto simp: known_def dict_keys_pop dict_keys_set)
qed

lemma cycle_known: "cycle c s = Inr s' \<Longrightarrow> known s' \<subseteq> known s"
  by (auto simp: cycle_def split: sum.splits
      dest!: submit_pending_known poll_queries_known)

lemma cycles_known: "cycles c n s = Inr s' \<Longrightarrow> known s' \<subseteq> known s"
proof (induction n arbitrary: s)
  case 0
  then show ?case by simp
next
  case (Suc n)
  then obtain s1 where "cycle c s = Inr s1" "cycles c n s1 = Inr s'"
    by (auto split: sum.splits)
  then show ?case using Suc.IH cycle_known by blast
qed

lemma initial_state_consistent: "consistent (initial_state c groups w)"
proof -
  have "distinct (map fst (foldl (\<lambda>d g. dict_set d g v) d0 groups))"
    if "distinct (map fst d0)" for d0 :: "(string \<times> int \<times> int) list" and v
    using that by (induction groups arbitrary: d0) (simp_all add: distinct_dict_set)
  then show ?thesis
    by (simp add: consistent_def initial_state_def dict_keys_Nil)
qed

lemma query_loop_exit_now:
  "cycle c s = Inr s' \<Longrightarrow> idle s' \<Longrightarrow> query_loop c s = Some (Inr s')"
  by (simp add: query_loop.simps [of c s])

lemma query_loop_again:
  "cycle c s = Inr s' \<Longrightarrow> \<not> idle s' \<Longrightarrow> query_loop c s = query_loop c s'"
  by (simp add: query_loop.simps [of c s])

lemma query_loop_raise: "cycle c s = Inl e \<Longrightarrow> query_loop c s = Some (Inl e)"
  by (simp add: query_loop.simps [of c s])

lemma query_loop_from_cycles:
  "cycles c (Suc n) s = Inr s' \<Longrightarrow> idle s' \<Longrightarrow>
     (\<forall>k < n. \<forall>t. cycles c (Suc k) s = Inr t \<longrightarrow> \<not> idle t) \<Longrightarrow>
     query_loop c s = Some (Inr s')"
proof (induction n arbitrary: s)
  case 0
  then have "cycle c s = Inr s'" by (auto split: sum.splits)
  with 0 show ?case by (simp add: query_loop_exit_now)
next
  case (Suc n)
  from Suc.prems(1) obtain s1 where s1: "cycle c s = Inr s1" "cycles c (Suc n) s1 = Inr s'"
    by (auto split: sum.splits)
  from Suc.prems(3) s1(1) have busy: "\<not> idle s1"
    by (auto dest!: spec [of _ 0])
  have "\<forall>k < n. \<forall>t. cycles c (Suc k) s1 = Inr t \<longrightarrow> \<not> idle t"
  proof (intro allI impI)
    fix k t
    assume "k < n" "cycles c (Suc k) s1 = Inr t"
    with s1(1) have "Suc k < Suc n" "cycles c (Suc (Suc k)) s = Inr t" by simp_all
    with Suc.prems(3) show "\<not> idle t" by blast
  qed
  with s1(2) Suc.prems(2) have "query_loop c s1 = Some (Inr s')" by (rule Suc.IH)
  with s1(1) busy show ?case by (simp add: query_loop_again)
qed

lemma query_loop_to_cycles:
  assumes "query_loop c s = Some r"
  shows "\<forall>s'. r = Inr s' \<longrightarrow>
     (\<exists>n. cycles c (Suc n) s = Inr s' \<and> idle s' \<and>
        (\<forall>k < n. \<forall>t. cycles c (Suc k) s = Inr t \<longrightarrow> \<not> idle t))"
proof (rule query_loop.raw_induct [where P = "\<lambda>c s r. \<forall>s'. r = Inr s' \<longrightarrow>
     (\<exists>n. cycles c (Suc n) s = Inr s' \<and> idle s' \<and>
        (\<forall>k < n. \<forall>t. cycles c (Suc k) s = Inr t \<longrightarrow> \<not> idle t))", OF _ assms])
  fix f c s r
  assume IH: "\<And>c s r. f c s = Some r \<Longrightarrow> \<forall>s'. r = Inr s' \<longrightarrow>
     (\<exists>n. cycles c (Suc n) s = Inr s' \<and> idle s' \<and>
        (\<forall>k < n. \<forall>t. cycles c (Suc k) s = Inr t \<longrightarrow> \<not> idle t))"
    and eq: "(case cycle c s of Inl e \<Rightarrow> Some (Inl e)
       | Inr s' \<Rightarrow> if idle s' then Some (Inr s') else f c s') = Some r"
  show "\<forall>s'. r = Inr s' \<longrightarrow>
     (\<exists>n. cycles c (Suc n) s = Inr s' \<and> idle s' \<and>
        (\<forall>k < n. \<forall>t. cycles c (Suc k) s = Inr t \<longrightarrow> \<not> idle t))"
  proof (intro allI impI)
    fix s'
    assume r: "r = Inr s'"
    show "\<exists>n. cycles c (Suc n) s = Inr s' \<and> idle s' \<and>
        (\<forall>k < n. \<forall>t. cycles c (Suc k) s = Inr t \<longrightarrow> \<not> idle t)"
    proof (cases "cycle c s")
      case (Inl e)
      with eq r show ?thesis by simp
    next
      case (Inr s1)
      show ?thesis
      proof (cases "idle s1")
        case True
        with eq r Inr have "s1 = s'" by simp
        with Inr True have "cycles c (Suc 0) s = Inr s' \<and> idle s' \<and>
            (\<forall>k < 0. \<forall>t. cycles c (Suc k) s = Inr t \<longrightarrow> \<not> idle t)"
          by simp
        then show ?thesis by blast
      next
        case False
        with eq Inr have "f c s1 = Some r" by simp
        with IH r obtain n where n: "cycles c (Suc n) s1 = Inr s'" "idle s'"
          "\<forall>k < n. \<forall>t. cycles c (Suc k) s1 = Inr t \<longrightarrow> \<not> idle t"
          by blast
        have "\<forall>k < Suc n. \<forall>t. cycles c (Suc k) s = Inr t \<longrightarrow> \<not> idle t"
        proof (intro allI impI)
          fix k t
          assume k: "k < Suc n" "cycles c (Suc k) s = Inr t"
          show "\<not> idle t"
          proof (cases k)
            case 0
            with k Inr False show ?thesis by simp
          next
            case (Suc j)
            with k Inr have "j < n" "cycles c (Suc j) s1 = Inr t" by simp_all
            with n(3) show ?thesis by blast
          qed
        qed
        moreover from Inr n(1) have "cycles c (Suc (Suc n)) s = Inr s'" by simp
        ultimately show ?thesis using n(2) by blast
      qed
    qed
  qed
qed

text \<open>
  Claim C4. The loop of \<open>__query_logs\<close> returns with state \<open>s'\<close> exactly when \<open>s'\<close> is
  the state after the first pass that ends with the pending dictionary and the
  in-flight dictionary both empty: it leaves at that pass, and at no pass that ends
  with one of them non-empty. (A pass that raises ends the loop with the exception,
  which is a different result.)
\<close>

theorem query_loop_exit_iff:
  "query_loop c s = Some (Inr s') \<longleftrightarrow>
     (\<exists>n. cycles c (Suc n) s = Inr s' \<and> idle s' \<and>
        (\<forall>k < n. \<forall>t. cycles c (Suc k) s = Inr t \<longrightarrow> \<not> idle t))"
  using query_loop_to_cycles [of c s "Inr s'"] query_loop_from_cycles [of c _ s s']
  by blast

lemmas demo_eval = demo_service_def start_error_query_def get_query_results_def
  submit_pending.simps cycle_def dict_pop_def QUERY_LIMIT_def

lemma demo_pass_1:
  "cycle demo_service \<lparr>log_groups = [(''big'', 100, 2000)], queries = [], world = 0\<rparr> =
     Inr \<lparr>log_groups = [(''big'', 1700, 2000)], queries = [], world = 2\<rparr>"
  by (simp add: demo_eval)

lemma demo_pass_2:
  "cycle demo_service \<lparr>log_groups = [(''big'', 1700, 2000)], queries = [], world = 2\<rparr> =
     Inr \<lparr>log_groups = [], queries = [], world = 4\<rparr>"
  by (simp add: demo_eval)

text \<open>
  The log group \<open>big\<close>: the first pass ends with the log group pending again, the second
  with both dictionaries empty, and the loop returns there.
\<close>

theorem query_loop_exit_iff_witness:
  "query_logs demo_service [''big''] 0 =
     Some (Inr \<lparr>log_groups = [], queries = [], world = 4\<rparr>)"
proof -
  have init: "initial_state demo_service [''big''] 0 =
      \<lparr>log_groups = [(''big'', 100, 2000)], queries = [], world = 0\<rparr>"
    by (simp add: initial_state_def demo_service_def)
  have "\<exists>n. cycles demo_service (Suc n)
        \<lparr>log_groups = [(''big'', 100, 2000)], queries = [], world = 0\<rparr> =
        Inr \<lparr>log_groups = [], queries = [], world = 4\<rparr> \<and>
      idle \<lparr>log_groups = [], queries = [], world = 4::nat\<rparr> \<and>
      (\<forall>k < n. \<forall>t. cycles demo_service (Suc k)
          \<lparr>log_groups = [(''big'', 100, 2000)], queries = [], world = 0\<rparr> = Inr t \<longrightarrow> \<not> idle t)"
    by (rule exI [of _ 1]) (auto simp: demo_pass_1 demo_pass_2 idle_def)
  then show ?thesis
    using query_loop_exit_iff [of demo_service
        "\<lparr>log_groups = [(''big'', 100, 2000)], queries = [], world = 0\<rparr>"
        "\<lparr>log_groups = [], queries = [], world = 4\<rparr>"]
    by (simp add: query_logs_def init)
qed

lemma not_key_map_of: "g \<notin> dict_keys d \<longleftrightarrow> map_of d g = None"
  by (simp add: dict_keys_def map_of_eq_None_iff)

lemma poll_queries_keeps_entry:
  assumes res: "poll_queries c n s = Inr s'"
    and s: "consistent s" "g \<notin> dict_keys (queries s)"
  shows "map_of (log_groups s') g = map_of (log_groups s) g \<and> g \<notin> dict_keys (queries s')"
proof -
  let ?I = "\<lambda>t. consistent t \<and> g \<notin> dict_keys (queries t) \<and>
      map_of (log_groups t) g = map_of (log_groups s) g"
  have "?I s'"
  proof (rule poll_queries_rule [where I = ?I, OF res])
    show "?I s" using s by simp
  next
    fix t :: "'a query_state" and w
    assume "?I t"
    then show "?I (t\<lparr>world := w\<rparr>)" by (simp add: consistent_world)
  next
    fix t :: "'a query_state" and i g' q w
    assume "?I t"
    then show "?I (t\<lparr>queries := dict_pop (queries t) g', world := w\<rparr>)"
      by (simp add: consistent_finish dict_keys_pop)
  next
    fix t :: "'a query_state" and i g' q w ts
    assume t: "?I t" and "i < length (queries t)" "queries t ! i = (g', q)"
    then have "g' \<in> dict_keys (queries t)" by (simp add: nth_key)
    with t have "g' \<noteq> g" by blast
    with t show "?I (t\<lparr>log_groups := dict_set (log_groups t) g' (ts, limit_timestamp c),
        queries := dict_pop (queries t) g', world := w\<rparr>)"
      by (simp add: consistent_again dict_keys_pop map_of_dict_set)
  qed
  then show ?thesis by simp
qed

text \<open>
  Claim C3. In a consistent state, when the query polled at index \<open>i\<close> is complete, its
  rows are handled and the rest of the polling loop goes through: if there are at least
  \<open>QUERY_LIMIT\<close> rows, the log group is pending afterwards with the timestamp of the
  last row as start time and the configured limit as end time; if there are fewer, the
  log group is not pending afterwards; in both cases its query is no longer in flight.
\<close>

theorem sliding_window_resubmission:
  assumes "consistent s" and "i < length (queries s)" and "queries s ! i = (g, q)"
    and "get_query_results c (world s) q = (Inr (Results rs), w)"
    and "poll_queries c (Suc i) s = Inr s'"
  shows "(QUERY_LIMIT \<le> length rs \<longrightarrow>
            (\<exists>ts. result_timestamp c (last rs) = Inr ts \<and>
               map_of (log_groups s') g = Some (ts, limit_timestamp c)))
       \<and> (length rs < QUERY_LIMIT \<longrightarrow> g \<notin> dict_keys (log_groups s'))
       \<and> g \<notin> dict_keys (queries s')"
proof -
  from assms(2,3) have gq: "g \<in> dict_keys (queries s)" by (simp add: nth_key)
  with assms(1) have fresh: "map_of (log_groups s) g = None"
    by (auto simp: consistent_def not_key_map_of [symmetric])
  from assms(2-5) obtain w' where h: "handle_results c w rs g = Inr w'"
    by (cases "handle_results c w rs g") auto
  show ?thesis
  proof (cases "QUERY_LIMIT \<le> length rs")
    case True
    from assms(2-5) h True obtain ts where ts: "result_timestamp c (last rs) = Inr ts"
      by (cases "result_timestamp c (last rs)") auto
    let ?s = "s\<lparr>log_groups := dict_set (log_groups s) g (ts, limit_timestamp c),
        queries := dict_pop (queries s) g, world := w'\<rparr>"
    from assms(2-5) h True ts have "poll_queries c i ?s = Inr s'" by simp
    moreover have "consistent ?s" using assms(1) by (rule consistent_again)
    moreover have "g \<notin> dict_keys (queries ?s)" by (simp add: dict_keys_pop)
    ultimately have "map_of (log_groups s') g = map_of (log_groups ?s) g \<and>
        g \<notin> dict_keys (queries s')"
      by (rule poll_queries_keeps_entry)
    with True ts show ?thesis by (simp add: map_of_dict_set)
  next
    case False
    let ?s = "s\<lparr>queries := dict_pop (queries s) g, world := w'\<rparr>"
    from assms(2-5) h False have "poll_queries c i ?s = Inr s'" by simp
    moreover have "consistent ?s" using assms(1) by (rule consistent_finish)
    moreover have "g \<notin> dict_keys (queries ?s)" by (simp add: dict_keys_pop)
    ultimately have "map_of (log_groups s') g = map_of (log_groups ?s) g \<and>
        g \<notin> dict_keys (queries s')"
      by (rule poll_queries_keeps_entry)
    with False fresh show ?thesis by (simp add: not_key_map_of)
  qed
qed

text \<open>
  The query of \<open>big\<close> returns 10000 rows, the last at 1700: the log group is pending
  again from 1700 to the limit 2000. The query of \<open>app\<close> returns one row: nothing is
  pending.
\<close>

theorem sliding_window_resubmission_witness:
  "map_of (log_groups \<lparr>log_groups = [(''big'', 1700, 2000)], queries = [], world = 2::nat\<rparr>)
       ''big'' = Some (1700, 2000)
   \<and> ''app'' \<notin> dict_keys (log_groups \<lparr>log_groups = [], queries = [], world = 2::nat\<rparr>)
   \<and> poll_queries demo_service (Suc 0)
        \<lparr>log_groups = [], queries = [(''big'', ''q-big'')], world = 1\<rparr> =
      Inr \<lparr>log_groups = [(''big'', 1700, 2000)], queries = [], world = 2\<rparr>
   \<and> poll_queries demo_service (Suc 0)
        \<lparr>log_groups = [], queries = [(''app'', ''q-app'')], world = 1\<rparr> =
      Inr \<lparr>log_groups = [], queries = [], world = 2\<rparr>"
proof -
  let ?big = "\<lparr>log_groups = [], queries = [(''big'', ''q-big'')], world = 1::nat\<rparr>"
  let ?app = "\<lparr>log_groups = [], queries = [(''app'', ''q-app'')], world = 1::nat\<rparr>"
  have c: "consistent ?big" "consistent ?app"
    by (simp_all add: consistent_def dict_keys_def)
  have g1: "get_query_results demo_service (world ?big) ''q-big'' =
      (Inr (Results (replicate 9999 1000 @ [1700])), 2)"
    by (simp add: demo_eval)
  have g2: "get_query_results demo_service (world ?app) ''q-app'' = (Inr (Results [1800]), 2)"
    by (simp add: demo_eval)
  have p1: "poll_queries demo_service (Suc 0) ?big =
      Inr \<lparr>log_groups = [(''big'', 1700, 2000)], queries = [], world = 2\<rparr>"
    by (simp add: demo_eval)
  have p2: "poll_queries demo_service (Suc 0) ?app =
      Inr \<lparr>log_groups = [], queries = [], world = 2\<rparr>"
    by (simp add: demo_eval)
  have "QUERY_LIMIT \<le> length (replicate 9999 (1000::int) @ [1700])"
    and "length [1800::int] < QUERY_LIMIT"
    by (simp_all add: QUERY_LIMIT_def)
  then show ?thesis
    using sliding_window_resubmission [where g = "''big''", OF c(1) _ _ g1 p1]
      sliding_window_resubmission [where g = "''app''", OF c(2) _ _ g2 p2] p1 p2
    by (simp add: demo_service_def)
qed

lemma poll_queries_keeps_head:
  assumes res: "poll_queries c n s = Inr s'"
    and s: "consistent s" "log_groups s = (g, tr) # rest"
  shows "\<exists>rest'. log_groups s' = (g, tr) # rest'"
proof -
  let ?I = "\<lambda>t. consistent t \<and> (\<exists>rest'. log_groups t = (g, tr) # rest')"
  have "?I s'"
  proof (rule poll_queries_rule [where I = ?I, OF res])
    show "?I s" using s by simp
  next
    fix t :: "'a query_state" and w
    assume "?I t"
    then show "?I (t\<lparr>world := w\<rparr>)" by (simp add: consistent_world)
  next
    fix t :: "'a query_state" and i g' q w
    assume "?I t"
    then show "?I (t\<lparr>queries := dict_pop (queries t) g', world := w\<rparr>)"
      by (simp add: consistent_finish)
  next
    fix t :: "'a query_state" and i g' q w ts
    assume t: "?I t" and "i < length (queries t)" "queries t ! i = (g', q)"
    then have "g' \<in> dict_keys (queries t)" by (simp add: nth_key)
    moreover from t have "g \<in> dict_keys (log_groups t)" by (auto simp: dict_keys_Cons)
    ultimately have "g \<noteq> g'" using t by (auto simp: consistent_def)
    with t show "?I (t\<lparr>log_groups := dict_set (log_groups t) g' (ts, limit_timestamp c),
        queries := dict_pop (queries t) g', world := w\<rparr>)"
      by (auto simp: consistent_again)
  qed
  then show ?thesis by simp
qed

text \<open>
  Claim C6. In a consistent state whose first pending log group is \<open>g\<close>, when the
  service answers the submission with an error code:
  the concurrent-query-limit code ends the submissions of this pass with the state
  unchanged, and after the pass \<open>g\<close> is still the first pending log group with the same
  window, so the loop does not leave and the next pass submits it again, however often
  this repeats; the resource-not-found code removes \<open>g\<close> from the pending log groups,
  and after this pass and after every later pass \<open>g\<close> is neither pending nor in flight;
  any other code is raised as \<open>ClientError\<close> out of the submission and out of the loop.
\<close>

theorem submission_error_classification:
  assumes "consistent s" and "log_groups s = (g, t0, t1) # rest"
    and "client_start_query c (world s) g t0 t1 = (Inl code, w)"
  shows "(code = ''LimitExceededException'' \<longrightarrow>
            submit_pending c s = Inr (s\<lparr>world := w\<rparr>) \<and>
            (\<forall>s1. cycle c s = Inr s1 \<longrightarrow>
               (\<exists>rest'. log_groups s1 = (g, t0, t1) # rest') \<and>
               query_loop c s = query_loop c s1))
       \<and> (code = ''ResourceNotFoundException'' \<longrightarrow>
            submit_pending c s = submit_pending c (s\<lparr>log_groups := rest, world := w\<rparr>) \<and>
            (\<forall>n s2. cycles c (Suc n) s = Inr s2 \<longrightarrow> g \<notin> known s2))
       \<and> (code \<noteq> ''LimitExceededException'' \<and> code \<noteq> ''ResourceNotFoundException'' \<longrightarrow>
            submit_pending c s = Inl (ClientError code) \<and>
            query_loop c s = Some (Inl (ClientError code)))"
proof (intro conjI impI allI)
  assume code: "code = ''LimitExceededException''"
  with assms(3) have "start_error_query c (world s) g t0 t1 = (Inr LIMIT_REACHED, w)"
    by (simp add: start_error_query_def)
  with assms(2) show sub: "submit_pending c s = Inr (s\<lparr>world := w\<rparr>)"
    by (rule submit_pending_limit)
  fix s1
  assume "cycle c s = Inr s1"
  with sub have "poll_queries c (length (queries s)) (s\<lparr>world := w\<rparr>) = Inr s1"
    by (simp add: cycle_def)
  moreover have "consistent (s\<lparr>world := w\<rparr>)" using assms(1) by (simp add: consistent_world)
  moreover have "log_groups (s\<lparr>world := w\<rparr>) = (g, t0, t1) # rest" using assms(2) by simp
  ultimately show head: "\<exists>rest'. log_groups s1 = (g, t0, t1) # rest'"
    by (rule poll_queries_keeps_head)
  then have "\<not> idle s1" by (auto simp: idle_def)
  with \<open>cycle c s = Inr s1\<close> show "query_loop c s = query_loop c s1"
    by (rule query_loop_again)
next
  assume code: "code = ''ResourceNotFoundException''"
  with assms(3) have "start_error_query c (world s) g t0 t1 = (Inr NOT_FOUND, w)"
    by (simp add: start_error_query_def)
  with assms(2) have "submit_pending c s =
      submit_pending c (s\<lparr>log_groups := dict_pop (log_groups s) g, world := w\<rparr>)"
    by (rule submit_pending_not_found)
  moreover from assms(1,2) have pop: "dict_pop (log_groups s) g = rest"
    by (simp add: consistent_def dict_pop_head)
  ultimately show sub: "submit_pending c s =
      submit_pending c (s\<lparr>log_groups := rest, world := w\<rparr>)"
    by simp
  fix n s2
  assume run: "cycles c (Suc n) s = Inr s2"
  let ?s = "s\<lparr>log_groups := rest, world := w\<rparr>"
  from sub have "cycle c s = cycle c ?s" by (simp add: cycle_def)
  with run have "cycles c (Suc n) ?s = Inr s2" by simp
  then have "known s2 \<subseteq> known ?s" by (rule cycles_known)
  moreover from assms(1,2) have "g \<notin> known ?s"
    by (auto simp: consistent_def known_def dict_keys_def)
  ultimately show "g \<notin> known s2" by blast
next
  assume code: "code \<noteq> ''LimitExceededException'' \<and> code \<noteq> ''ResourceNotFoundException''"
  with assms(3) have "start_error_query c (world s) g t0 t1 = (Inl (ClientError code), w)"
    by (simp add: start_error_query_def)
  with assms(2) show sub: "submit_pending c s = Inl (ClientError code)"
    by (rule submit_pending_error)
  then have "cycle c s = Inl (ClientError code)" by (simp add: cycle_def)
  then show "query_loop c s = Some (Inl (ClientError code))" by (rule query_loop_raise)
qed

text \<open>
  The three kinds of answer of the example service: \<open>busy\<close> stays pending and the pass
  stops there, \<open>missing\<close> is dropped and \<open>app\<close> after it is still submitted, \<open>denied\<close>
  ends the loop with the error.
\<close>

theorem submission_error_classification_witness:
  "submit_pending demo_service
       \<lparr>log_groups = [(''busy'', 100, 2000), (''app'', 100, 2000)], queries = [], world = 0\<rparr> =
     Inr \<lparr>log_groups = [(''busy'', 100, 2000), (''app'', 100, 2000)], queries = [], world = 1\<rparr>
   \<and> ''missing'' \<notin> known \<lparr>log_groups = [], queries = [], world = 3::nat\<rparr>
   \<and> cycles demo_service (Suc 0)
       \<lparr>log_groups = [(''missing'', 100, 2000), (''app'', 100, 2000)], queries = [], world = 0\<rparr> =
     Inr \<lparr>log_groups = [], queries = [], world = 3\<rparr>
   \<and> query_loop demo_service
       \<lparr>log_groups = [(''denied'', 100, 2000)], queries = [], world = 0\<rparr> =
     Some (Inl (ClientError ''AccessDeniedException''))"
proof -
  let ?busy = "\<lparr>log_groups = [(''busy'', 100, 2000), (''app'', 100, 2000)], queries = [],
      world = 0::nat\<rparr>"
  let ?missing = "\<lparr>log_groups = [(''missing'', 100, 2000), (''app'', 100, 2000)],
      queries = [], world = 0::nat\<rparr>"
  let ?denied = "\<lparr>log_groups = [(''denied'', 100, 2000)], queries = [], world = 0::nat\<rparr>"
  have c: "consistent ?busy" "consistent ?missing" "consistent ?denied"
    by (simp_all add: consistent_def dict_keys_def)
  have a1: "client_start_query demo_service (world ?busy) ''busy'' 100 2000 =
      (Inl ''LimitExceededException'', 1)"
    and a2: "client_start_query demo_service (world ?missing) ''missing'' 100 2000 =
      (Inl ''ResourceNotFoundException'', 1)"
    and a3: "client_start_query demo_service (world ?denied) ''denied'' 100 2000 =
      (Inl ''AccessDeniedException'', 1)"
    by (simp_all add: demo_service_def)
  have run: "cycles demo_service (Suc 0) ?missing =
      Inr \<lparr>log_groups = [], queries = [], world = 3\<rparr>"
    by (simp add: demo_eval)
  show ?thesis
    using submission_error_classification [OF c(1) _ a1, of "[(''app'', 100, 2000)]"]
      submission_error_classification [OF c(2) _ a2, of "[(''app'', 100, 2000)]"]
      submission_error_classification [OF c(3) _ a3, of "[]"] run
    by simp
qed

section \<open>Pagination\<close>

lemma drain_yielding:
  "drain remote (Yielding xs uri p header) ys reqs =
     drain remote (Yielding [] uri p header) (ys @ xs) reqs"
proof (induction xs arbitrary: ys)
  case Nil
  then show ?case by simp
next
  case (Cons x xs)
  have "drain remote (Yielding (x # xs) uri p header) ys reqs =
      drain remote (Yielding xs uri p header) (ys @ [x]) reqs"
    by (subst drain.simps) simp
  with Cons [of "ys @ [x]"] show ?case by simp
qed

lemma drain_last_page:
  "\<not> has_cursor page \<Longrightarrow>
     drain remote (Yielding [] uri p (X_Next_Page page)) ys reqs = Some (ys, reqs, None)"
  by (subst drain.simps) (auto simp: has_cursor_def cursor_def split: option.splits)

lemma drain_next_page:
  "has_cursor page \<Longrightarrow>
     drain remote (Yielding [] uri p (X_Next_Page page)) ys reqs =
       drain remote (Start uri (dict_set p ''page'' (cursor page))) ys reqs"
  by (subst drain.simps) (auto simp: has_cursor_def cursor_def split: option.splits)

lemma drain_fetch:
  "remote uri p = Inr page \<Longrightarrow>
     drain remote (Start uri p) ys reqs =
       drain remote (Yielding [] uri p (X_Next_Page page)) (ys @ json page) (reqs @ [p])"
proof -
  assume r: "remote uri p = Inr page"
  have "drain remote (Start uri p) ys reqs =
      drain remote (Yielding (json page) uri p (X_Next_Page page)) ys (reqs @ [p])"
    by (subst drain.simps) (simp add: r)
  also have "\<dots> = drain remote (Yielding [] uri p (X_Next_Page page)) (ys @ json page)
      (reqs @ [p])"
    by (rule drain_yielding)
  finally show ?thesis .
qed

lemma drain_serves:
  "serves remote uri p pages \<Longrightarrow>
     drain remote (Start uri p) ys reqs =
       Some (ys @ concat (map json pages), reqs @ requests_for p pages, None)"
proof (induction remote uri p pages arbitrary: ys reqs rule: serves.induct)
  case (1 remote uri p)
  then show ?case by simp
next
  case (2 remote uri p page)
  then have page: "remote uri p = Inr page" "\<not> has_cursor page" by simp_all
  have "drain remote (Start uri p) ys reqs =
      drain remote (Yielding [] uri p (X_Next_Page page)) (ys @ json page) (reqs @ [p])"
    using page(1) by (rule drain_fetch)
  also have "\<dots> = Some (ys @ json page, reqs @ [p], None)"
    using page(2) by (rule drain_last_page)
  finally show ?case by simp
next
  case (3 remote uri p page nxt pages)
  from "3.prems" have page: "remote uri p = Inr page" "has_cursor page"
    and rest: "serves remote uri (dict_set p ''page'' (cursor page)) (nxt # pages)"
    by simp_all
  have "drain remote (Start uri p) ys reqs =
      drain remote (Yielding [] uri p (X_Next_Page page)) (ys @ json page) (reqs @ [p])"
    using page(1) by (rule drain_fetch)
  also have "\<dots> =
      drain remote (Start uri (dict_set p ''page'' (cursor page))) (ys @ json page) (reqs @ [p])"
    using page(2) by (rule drain_next_page)
  also have "\<dots> = Some ((ys @ json page) @ concat (map json (nxt # pages)),
      (reqs @ [p]) @ requests_for (dict_set p ''page'' (cursor page)) (nxt # pages), None)"
    using rest by (rule "3.IH")
  finally show ?case by simp
qed

lemma completes_Start:
  assumes r: "remote uri p = Inr page"
    and c: "completes remote (Yielding (json page) uri p (X_Next_Page page)) zs rs"
  shows "completes remote (Start uri p) zs (p # rs)"
proof (cases "has_cursor page")
  case False
  then have "X_Next_Page page = None \<or> X_Next_Page page = Some []"
    by (auto simp: has_cursor_def cursor_def split: option.splits)
  with c have "zs = json page" "rs = []" by (auto simp: completes_def)
  moreover from r False have "serves remote uri p [page]" by simp
  ultimately have "serves remote uri p [page] \<and> zs = concat (map json [page]) \<and>
      p # rs = requests_for p [page]"
    by simp
  then have "\<exists>pages. serves remote uri p pages \<and> zs = concat (map json pages) \<and>
      p # rs = requests_for p pages"
    by (rule exI)
  then show ?thesis by (simp only: completes_def fetch_gen.case)
next
  case True
  then obtain next_page where h: "X_Next_Page page = Some next_page" "next_page \<noteq> []"
    "cursor page = next_page"
    by (auto simp: has_cursor_def cursor_def split: option.splits)
  with c obtain pages where pages: "serves remote uri (dict_set p ''page'' next_page) pages"
    "zs = json page @ concat (map json pages)"
    "rs = requests_for (dict_set p ''page'' next_page) pages"
    by (auto simp: completes_def)
  from pages(1) obtain nxt more where "pages = nxt # more" by (cases pages) auto
  with pages r True h have "serves remote uri p (page # pages) \<and>
      zs = concat (map json (page # pages)) \<and> p # rs = requests_for p (page # pages)"
    by simp
  then have "\<exists>pages. serves remote uri p pages \<and> zs = concat (map json pages) \<and>
      p # rs = requests_for p pages"
    by (rule exI)
  then show ?thesis by (simp only: completes_def fetch_gen.case)
qed

lemma completes_Yielding_Cons:
  "completes remote (Yielding xs uri p header) zs rs \<Longrightarrow>
     completes remote (Yielding (x # xs) uri p header) (x # zs) rs"
  by (auto simp: completes_def)

lemma drain_completes:
  assumes "drain remote g ys reqs = Some res"
  shows "\<forall>ys' reqs'. res = (ys', reqs', None) \<longrightarrow>
     (\<exists>zs rs. ys' = ys @ zs \<and> reqs' = reqs @ rs \<and> completes remote g zs rs)"
proof (rule drain.raw_induct [where P = "\<lambda>remote g ys reqs res.
    \<forall>ys' reqs'. res = (ys', reqs', None) \<longrightarrow>
     (\<exists>zs rs. ys' = ys @ zs \<and> reqs' = reqs @ rs \<and> completes remote g zs rs)", OF _ assms])
  fix f remote g ys reqs res
  assume IH: "\<And>remote g ys reqs res. f remote g ys reqs = Some res \<Longrightarrow>
      \<forall>ys' reqs'. res = (ys', reqs', None) \<longrightarrow>
       (\<exists>zs rs. ys' = ys @ zs \<and> reqs' = reqs @ rs \<and> completes remote g zs rs)"
    and eq: "(case gen_step remote g of
        (event, g') \<Rightarrow>
          (case event of
             Yielded dataset \<Rightarrow> f remote g' (ys @ [dataset]) reqs
           | Fetched p \<Rightarrow> f remote g' ys (reqs @ [p])
           | Advanced \<Rightarrow> f remote g' ys reqs
           | Stopped \<Rightarrow> Some (ys, reqs, None)
           | Failed p e \<Rightarrow> Some (ys, reqs @ [p], Some e))) = Some res"
  show "\<forall>ys' reqs'. res = (ys', reqs', None) \<longrightarrow>
     (\<exists>zs rs. ys' = ys @ zs \<and> reqs' = reqs @ rs \<and> completes remote g zs rs)"
  proof (intro allI impI)
    fix ys' reqs'
    assume res: "res = (ys', reqs', None)"
    show "\<exists>zs rs. ys' = ys @ zs \<and> reqs' = reqs @ rs \<and> completes remote g zs rs"
    proof (cases g)
      case Finished
      with eq res have "ys' = ys" "reqs' = reqs" by simp_all
      with Finished show ?thesis
        by (intro exI [of _ "[]"]) (simp add: completes_def)
    next
      case (Start uri p)
      show ?thesis
      proof (cases "remote uri p")
        case (Inl e)
        with eq res Start show ?thesis by simp
      next
        case (Inr page)
        with eq Start have
          "f remote (Yielding (json page) uri p (X_Next_Page page)) ys (reqs @ [p]) = Some res"
          by simp
        with IH res obtain zs rs where zs: "ys' = ys @ zs" "reqs' = (reqs @ [p]) @ rs"
          "completes remote (Yielding (json page) uri p (X_Next_Page page)) zs rs"
          by blast
        from Inr zs(3) have "completes remote (Start uri p) zs (p # rs)"
          by (rule completes_Start)
        with zs(1,2) Start show ?thesis
          by (intro exI [of _ zs] exI [of _ "p # rs"]) simp
      qed
    next
      case (Yielding xs uri p header)
      show ?thesis
      proof (cases xs)
        case (Cons x rest)
        with eq Yielding have "f remote (Yielding rest uri p header) (ys @ [x]) reqs = Some res"
          by simp
        with IH res obtain zs rs where zs: "ys' = (ys @ [x]) @ zs" "reqs' = reqs @ rs"
          "completes remote (Yielding rest uri p header) zs rs"
          by blast
        from zs(3) have "completes remote (Yielding (x # rest) uri p header) (x # zs) rs"
          by (rule completes_Yielding_Cons)
        with zs(1,2) Yielding Cons show ?thesis
          by (intro exI [of _ "x # zs"] exI [of _ rs]) simp
      next
        case Nil
        show ?thesis
        proof (cases "header = None \<or> header = Some []")
          case True
          with eq res Yielding Nil have "ys' = ys" "reqs' = reqs" by auto
          with True Yielding Nil show ?thesis
            by (intro exI [of _ "[]"]) (simp add: completes_def)
        next
          case False
          then obtain next_page where h: "header = Some next_page" "next_page \<noteq> []" by auto
          with eq Yielding Nil have
            "f remote (Start uri (dict_set p ''page'' next_page)) ys reqs = Some res"
            by simp
          with IH res obtain zs rs where zs: "ys' = ys @ zs" "reqs' = reqs @ rs"
            "completes remote (Start uri (dict_set p ''page'' next_page)) zs rs"
            by blast
          from zs(3) h have "completes remote (Yielding [] uri p header) zs rs"
            by (simp add: completes_def)
          with zs(1,2) Yielding Nil show ?thesis
            by (intro exI [of _ zs] exI [of _ rs]) simp
        qed
      qed
    qed
  qed
qed

text \<open>
  Claim C5. A walk of \<open>__fetch_all\<close> ends without an exception exactly when the remote
  side serves it a finite run of pages of which only the last has no cursor (a header
  that is absent or empty); it then has yielded the items of these pages, page by page
  and in order, and has made one request per page: the first with the caller's
  parameters, each later one with \<open>page\<close> set to the cursor of the page before. So it
  asks for a next page exactly when the last response has a cursor, and stops at the
  first response without one.
\<close>

theorem fetch_all_pages:
  "fetch_all remote uri p = Some (ys, reqs, None) \<longleftrightarrow>
     (\<exists>pages. serves remote uri p pages \<and> ys = concat (map json pages) \<and>
        reqs = requests_for p pages)"
proof
  assume "fetch_all remote uri p = Some (ys, reqs, None)"
  then have "drain remote (Start uri p) [] [] = Some (ys, reqs, None)"
    by (simp add: fetch_all_def)
  from drain_completes [OF this] have "completes remote (Start uri p) ys reqs" by simp
  then show "\<exists>pages. serves remote uri p pages \<and> ys = concat (map json pages) \<and>
        reqs = requests_for p pages"
    by (simp only: completes_def fetch_gen.case)
next
  assume "\<exists>pages. serves remote uri p pages \<and> ys = concat (map json pages) \<and>
        reqs = requests_for p pages"
  then obtain pages where "serves remote uri p pages" "ys = concat (map json pages)"
    "reqs = requests_for p pages"
    by blast
  then show "fetch_all remote uri p = Some (ys, reqs, None)"
    using drain_serves [of remote uri p pages "[]" "[]"] by (simp add: fetch_all_def)
qed

text \<open>
  Three pages: two items, none, one item. The second page is empty and has a cursor, the
  third has an empty header. The walk yields the three items and makes three requests.
\<close>

theorem fetch_all_pages_witness:
  "fetch_all three_pages ''/groups/7/projects'' [(''archived'', ''false'')] =
     Some ([1, 2, 3],
       [[(''archived'', ''false'')],
        [(''archived'', ''false''), (''page'', ''2'')],
        [(''archived'', ''false''), (''page'', ''3'')]], None)"
proof -
  let ?pages = "[\<lparr>json = [1, 2::nat], X_Next_Page = Some ''2''\<rparr>,
      \<lparr>json = [], X_Next_Page = Some ''3''\<rparr>, \<lparr>json = [3], X_Next_Page = Some []\<rparr>]"
  have "serves three_pages ''/groups/7/projects'' [(''archived'', ''false'')] ?pages"
    by (simp add: three_pages_def has_cursor_def cursor_def)
  moreover have "concat (map json ?pages) = [1, 2, 3]" by simp
  moreover have "requests_for [(''archived'', ''false'')] ?pages =
      [[(''archived'', ''false'')],
        [(''archived'', ''false''), (''page'', ''2'')],
        [(''archived'', ''false''), (''page'', ''3'')]]"
    by (simp add: cursor_def)
  ultimately have "\<exists>pages. serves three_pages ''/groups/7/projects''
        [(''archived'', ''false'')] pages \<and>
      [1, 2, 3] = concat (map json pages) \<and>
      [[(''archived'', ''false'')],
        [(''archived'', ''false''), (''page'', ''2'')],
        [(''archived'', ''false''), (''page'', ''3'')]] =
      requests_for [(''archived'', ''false'')] pages"
    by (intro exI [of _ ?pages]) (simp only: simp_thms)
  then show ?thesis
    by (simp only: fetch_all_pages)
qed

section \<open>Blame correlation and the cache of generators\<close>




section \<open>The records queued for error logs\<close>





section \<open>Facts about the issue-tracker rows\<close>

lemma SPRINT_RE_search_None: "SPRINT_RE_search s = None \<longleftrightarrow> (\<forall>c \<in> set s. \<not> is_digit c)"
  by (auto simp: SPRINT_RE_search_def Let_def dropWhile_eq_Nil_conv)

lemma SPRINT_RE_search_digits:
  assumes "SPRINT_RE_search s = Some ds"
  shows "ds \<noteq> [] \<and> list_all is_digit ds"
proof -
  let ?r = "dropWhile (\<lambda>c. \<not> is_digit c) s"
  from assms have r: "?r \<noteq> []" and ds: "ds = takeWhile is_digit ?r"
    by (auto simp: SPRINT_RE_search_def Let_def split: if_splits)
  from r have "is_digit (hd ?r)"
    using hd_dropWhile [of "\<lambda>c. \<not> is_digit c" s] by simp
  with r have "takeWhile is_digit ?r \<noteq> []"
    by (cases ?r) auto
  moreover have "list_all is_digit (takeWhile is_digit ?r)"
    by (simp add: list_all_iff) (metis set_takeWhileD)
  ultimately show ?thesis by (simp add: ds)
qed

lemma parse_sprints_ok:
  "(\<forall>c \<in> set ss. c \<noteq> [] \<longrightarrow> (\<exists>d \<in> set c. is_digit d)) \<Longrightarrow>
     parse_sprints ss = Inr (map sprint_number (filter (\<lambda>c. c \<noteq> []) ss))"
proof (induction ss)
  case Nil
  then show ?case by simp
next
  case (Cons s ss)
  then have IH: "parse_sprints ss = Inr (map sprint_number (filter (\<lambda>c. c \<noteq> []) ss))"
    by simp
  show ?case
  proof (cases "s = []")
    case True
    with IH show ?thesis by simp
  next
    case False
    with Cons.prems have "\<exists>d \<in> set s. is_digit d" by simp
    then obtain ds where ds: "SPRINT_RE_search s = Some ds"
      using SPRINT_RE_search_None [of s] by (cases "SPRINT_RE_search s") auto
    then have "ds \<noteq> []" "list_all is_digit ds"
      using SPRINT_RE_search_digits by blast+
    then have "py_int ds = Inr (int (dec_value ds))" by (rule py_int_digits)
    moreover from ds have "int (dec_value ds) = sprint_number s"
      by (auto simp: SPRINT_RE_search_def sprint_number_def Let_def split: if_splits)
    ultimately show ?thesis using False ds IH by simp
  qed
qed

lemma parse_sprints_raises:
  "c \<in> set ss \<Longrightarrow> c \<noteq> [] \<Longrightarrow> \<forall>d \<in> set c. \<not> is_digit d \<Longrightarrow> \<exists>e. parse_sprints ss = Inl e"
proof (induction ss)
  case Nil
  then show ?case by simp
next
  case (Cons s ss)
  show ?case
  proof (cases "s = c")
    case True
    with Cons.prems have "SPRINT_RE_search s = None"
      by (simp add: SPRINT_RE_search_None)
    with True Cons.prems show ?thesis by simp
  next
    case False
    with Cons.prems Cons.IH obtain e where "parse_sprints ss = Inl e" by auto
    then show ?thesis
      by (auto split: option.splits sum.splits)
  qed
qed

lemma put_stories_all_ok:
  "\<forall>r \<in> set pre. \<exists>doc. Story_transform_input r = Inr doc \<Longrightarrow>
     put_stories (pre @ rest) q = put_stories rest (q @ map story_message pre)"
proof (induction pre arbitrary: q)
  case Nil
  then show ?case by simp
next
  case (Cons r pre)
  then obtain doc where doc: "Story_transform_input r = Inr doc" by auto
  from Cons have "put_stories (pre @ rest) (q @ [(Some Story_LABEL, Some doc)]) =
      put_stories rest ((q @ [(Some Story_LABEL, Some doc)]) @ map story_message pre)"
    by simp
  moreover from doc have "story_message r = (Some Story_LABEL, Some doc)"
    by (simp add: story_message_def)
  ultimately show ?case using doc by simp
qed

section \<open>Partiality of the issue-tracker row parsing\<close>

text \<open>
  Claim C10. \<open>Story.transform_input\<close> succeeds exactly when the row has a first column
  that \<open>int()\<close> accepts and every non-empty later column contains a decimal digit; the
  story then has the integer of column 0 as its id and the embedded integers of the
  non-empty later columns as its sprints. A row with a non-empty column without a digit
  after the first makes the function raise, and \<open>Jira.__extract\<close> stops at that row: the
  stories of the rows before it are queued, the row itself and the rows after it are
  not.
\<close>

theorem Story_transform_input_partial:
  "(Story_transform_input row = Inr doc \<longleftrightarrow>
      row \<noteq> [] \<and> (\<exists>n. py_int (hd row) = Inr n) \<and>
      (\<forall>c \<in> set (tl row). c \<noteq> [] \<longrightarrow> (\<exists>d \<in> set c. is_digit d)) \<and>
      doc = [(''id'', PInt (projr (py_int (hd row)))),
             (''sprints'', PList (map PInt
                (map sprint_number (filter (\<lambda>c. c \<noteq> []) (tl row)))))])
   \<and> (c \<in> set (tl row) \<and> c \<noteq> [] \<and> (\<forall>d \<in> set c. \<not> is_digit d) \<longrightarrow>
        (\<exists>e. Story_transform_input row = Inl e) \<and>
        ((\<forall>r \<in> set pre. \<exists>doc. Story_transform_input r = Inr doc) \<longrightarrow>
           (\<exists>e. Jira_extract (header # pre @ row # post) q =
              (Some e, q @ map story_message pre))))"
proof (intro conjI impI)
  show "Story_transform_input row = Inr doc \<longleftrightarrow>
      row \<noteq> [] \<and> (\<exists>n. py_int (hd row) = Inr n) \<and>
      (\<forall>c \<in> set (tl row). c \<noteq> [] \<longrightarrow> (\<exists>d \<in> set c. is_digit d)) \<and>
      doc = [(''id'', PInt (projr (py_int (hd row)))),
             (''sprints'', PList (map PInt
                (map sprint_number (filter (\<lambda>c. c \<noteq> []) (tl row)))))]"
  proof (cases row)
    case Nil
    then show ?thesis by (simp add: Story_transform_input_def)
  next
    case (Cons d0 rest)
    show ?thesis
    proof (cases "\<forall>c \<in> set rest. c \<noteq> [] \<longrightarrow> (\<exists>d \<in> set c. is_digit d)")
      case True
      then have "parse_sprints rest = Inr (map sprint_number (filter (\<lambda>c. c \<noteq> []) rest))"
        by (rule parse_sprints_ok)
      with Cons True show ?thesis
        by (cases "py_int d0") (auto simp: Story_transform_input_def)
    next
      case False
      then obtain c where "c \<in> set rest" "c \<noteq> []" "\<forall>d \<in> set c. \<not> is_digit d" by auto
      then obtain e where "parse_sprints rest = Inl e"
        using parse_sprints_raises by blast
      with Cons False show ?thesis
        by (cases "py_int d0") (auto simp: Story_transform_input_def)
    qed
  qed
next
  assume bad: "c \<in> set (tl row) \<and> c \<noteq> [] \<and> (\<forall>d \<in> set c. \<not> is_digit d)"
  then obtain d0 rest where row: "row = d0 # rest" by (cases row) auto
  with bad obtain e where e: "parse_sprints rest = Inl e"
    using parse_sprints_raises [of c rest] by auto
  then show raises: "\<exists>e. Story_transform_input row = Inl e"
    by (cases "py_int d0") (auto simp: Story_transform_input_def row)
  assume "\<forall>r \<in> set pre. \<exists>doc. Story_transform_input r = Inr doc"
  then have "put_stories (pre @ row # post) q = put_stories (row # post) (q @ map story_message pre)"
    by (rule put_stories_all_ok)
  with raises show "\<exists>e. Jira_extract (header # pre @ row # post) q =
      (Some e, q @ map story_message pre)"
    by (auto simp: Jira_extract_def)
qed

theorem Story_transform_input_partial_witness:
  "Story_transform_input [''17'', ''Sprint 3'', '''', ''S12b''] =
     Inr [(''id'', PInt 17), (''sprints'', PList [PInt 3, PInt 12])]
   \<and> (\<exists>e. Story_transform_input [''18'', ''backlog''] = Inl e)
   \<and> (\<exists>e. Jira_extract [[''id'', ''sprint''], [''17'', ''Sprint 3''], [''18'', ''backlog''],
              [''19'', ''Sprint 4'']] [] =
        (Some e, [story_message [''17'', ''Sprint 3'']]))"
proof -
  have d: "is_digit (CHR ''3'')" "is_digit (CHR ''1'')" "is_digit (CHR ''2'')"
    by (simp_all add: is_digit_def)
  have i17: "py_int ''17'' = Inr 17"
    using py_int_digits [of "''17''"] by (simp add: is_digit_def dec_value_def digit_val_def)
  have s3: "sprint_number ''Sprint 3'' = 3" and s12: "sprint_number ''S12b'' = 12"
    by (simp_all add: sprint_number_def is_digit_def dec_value_def digit_val_def)
  have nd: "\<forall>d \<in> set ''backlog''. \<not> is_digit d"
    by (simp add: is_digit_def)
  have ok17: "\<exists>doc. Story_transform_input [''17'', ''Sprint 3''] = Inr doc"
    using Story_transform_input_partial
      [of "[''17'', ''Sprint 3'']" _ "''x''" "[]" "[]" "[]" "[]"] i17 d
    by auto
  have 1: "Story_transform_input [''17'', ''Sprint 3'', '''', ''S12b''] =
     Inr [(''id'', PInt 17), (''sprints'', PList [PInt 3, PInt 12])]"
    using Story_transform_input_partial
      [of "[''17'', ''Sprint 3'', '''', ''S12b'']"
          "[(''id'', PInt 17), (''sprints'', PList [PInt 3, PInt 12])]" "''x''" "[]" "[]" "[]" "[]"]
      i17 s3 s12 d
    by auto
  have 2: "(\<exists>e. Story_transform_input [''18'', ''backlog''] = Inl e)
      \<and> (\<exists>e. Jira_extract [[''id'', ''sprint''], [''17'', ''Sprint 3''], [''18'', ''backlog''],
              [''19'', ''Sprint 4'']] [] =
        (Some e, [story_message [''17'', ''Sprint 3'']]))"
    using Story_transform_input_partial
      [of "[''18'', ''backlog'']" "[]" "''backlog''" "[[''17'', ''Sprint 3'']]"
          "[''id'', ''sprint'']" "[[''19'', ''Sprint 4'']]" "[]"] nd ok17
    by simp
  from 1 2 show ?thesis by simp
qed

end
